theory Spec2Isabelle
  imports Complex_Main "HOL-Library.Multiset" "HOL-Library.Word"
    "HOL-Library.Char_ord" "HOL-Library.List_Lexorder"
begin

section \<open>JavaScript numbers\<close>

text \<open>
  Every numeric value of the two services is a JavaScript \<^verbatim>\<open>number\<close>. The model keeps the
  three special values that the code can produce and that change its control flow
  (\<^verbatim>\<open>NaN\<close>, \<^verbatim>\<open>Infinity\<close>, \<^verbatim>\<open>-Infinity\<close>) and represents a finite number by the real it
  denotes. Sums, products and quotients of finite numbers are exact: the rounding of
  IEEE-754 doubles and the overflow of these operations are not modelled, and \<^verbatim>\<open>-0\<close> is
  identified with \<^verbatim>\<open>0\<close>. The model agrees with the code whenever every intermediate
  value is exactly representable (integers below \<open>2^53\<close>, dyadic fractions). The
  properties proved below are stated for the data of the specification: trust scores in
  the range from 0 to 1000 (integers, where sums must be exact) and boolean votes.
\<close>

datatype number = Fin real | PosInf | NegInf | NaN

fun jsNeg :: "number \<Rightarrow> number" where
  "jsNeg (Fin a) = Fin (- a)"
| "jsNeg PosInf = NegInf"
| "jsNeg NegInf = PosInf"
| "jsNeg NaN = NaN"

text \<open>\<^verbatim>\<open>a + b\<close>\<close>

fun jsAdd :: "number \<Rightarrow> number \<Rightarrow> number" where
  "jsAdd (Fin a) (Fin b) = Fin (a + b)"
| "jsAdd (Fin a) PosInf = PosInf"
| "jsAdd (Fin a) NegInf = NegInf"
| "jsAdd PosInf (Fin b) = PosInf"
| "jsAdd PosInf PosInf = PosInf"
| "jsAdd PosInf NegInf = NaN"
| "jsAdd NegInf (Fin b) = NegInf"
| "jsAdd NegInf PosInf = NaN"
| "jsAdd NegInf NegInf = NegInf"
| "jsAdd NaN _ = NaN"
| "jsAdd _ NaN = NaN"

text \<open>\<^verbatim>\<open>a - b\<close>\<close>

definition jsSub :: "number \<Rightarrow> number \<Rightarrow> number" where
  "jsSub a b = jsAdd a (jsNeg b)"

text \<open>The product of an infinity with a finite number: \<^verbatim>\<open>Infinity * 0\<close> is \<^verbatim>\<open>NaN\<close>.\<close>

definition infTimes :: "bool \<Rightarrow> real \<Rightarrow> number" where
  "infTimes positive a =
     (if a = 0 then NaN else if (0 < a) = positive then PosInf else NegInf)"

text \<open>\<^verbatim>\<open>a * b\<close>\<close>

fun jsMul :: "number \<Rightarrow> number \<Rightarrow> number" where
  "jsMul (Fin a) (Fin b) = Fin (a * b)"
| "jsMul (Fin a) PosInf = infTimes True a"
| "jsMul (Fin a) NegInf = infTimes False a"
| "jsMul PosInf (Fin b) = infTimes True b"
| "jsMul NegInf (Fin b) = infTimes False b"
| "jsMul PosInf PosInf = PosInf"
| "jsMul PosInf NegInf = NegInf"
| "jsMul NegInf PosInf = NegInf"
| "jsMul NegInf NegInf = PosInf"
| "jsMul NaN _ = NaN"
| "jsMul _ NaN = NaN"

text \<open>
  \<^verbatim>\<open>a / b\<close>: a division by zero does not raise, it yields an infinity, and \<^verbatim>\<open>0 / 0\<close>
  yields \<^verbatim>\<open>NaN\<close>.
\<close>

fun jsDiv :: "number \<Rightarrow> number \<Rightarrow> number" where
  "jsDiv (Fin a) (Fin b) =
     (if b = 0 then (if a = 0 then NaN else if 0 < a then PosInf else NegInf)
      else Fin (a / b))"
| "jsDiv (Fin a) PosInf = Fin 0"
| "jsDiv (Fin a) NegInf = Fin 0"
| "jsDiv PosInf (Fin b) = (if 0 \<le> b then PosInf else NegInf)"
| "jsDiv NegInf (Fin b) = (if 0 \<le> b then NegInf else PosInf)"
| "jsDiv PosInf PosInf = NaN"
| "jsDiv PosInf NegInf = NaN"
| "jsDiv NegInf PosInf = NaN"
| "jsDiv NegInf NegInf = NaN"
| "jsDiv NaN _ = NaN"
| "jsDiv _ NaN = NaN"

text \<open>\<^verbatim>\<open>a < b\<close>: every comparison with \<^verbatim>\<open>NaN\<close> is false.\<close>

fun jsLt :: "number \<Rightarrow> number \<Rightarrow> bool" where
  "jsLt (Fin a) (Fin b) = (a < b)"
| "jsLt (Fin a) PosInf = True"
| "jsLt NegInf (Fin b) = True"
| "jsLt NegInf PosInf = True"
| "jsLt _ _ = False"

text \<open>\<^verbatim>\<open>a > b\<close>\<close>

definition jsGt :: "number \<Rightarrow> number \<Rightarrow> bool" where
  "jsGt a b = jsLt b a"

text \<open>\<^verbatim>\<open>a >= b\<close>\<close>

definition jsGe :: "number \<Rightarrow> number \<Rightarrow> bool" where
  "jsGe a b = (a \<noteq> NaN \<and> b \<noteq> NaN \<and> \<not> jsLt a b)"

text \<open>\<^verbatim>\<open>Math.max(a, b)\<close> and \<^verbatim>\<open>Math.min(a, b)\<close>: \<^verbatim>\<open>NaN\<close> if either argument is.\<close>

definition mathMax :: "number \<Rightarrow> number \<Rightarrow> number" where
  "mathMax a b = (if a = NaN \<or> b = NaN then NaN else if jsLt a b then b else a)"

definition mathMin :: "number \<Rightarrow> number \<Rightarrow> number" where
  "mathMin a b = (if a = NaN \<or> b = NaN then NaN else if jsLt b a then b else a)"

text \<open>\<^verbatim>\<open>Math.round(x)\<close>: the nearest integer, a tie rounded up.\<close>

fun mathRound :: "number \<Rightarrow> number" where
  "mathRound (Fin a) = Fin (of_int \<lfloor>a + 1 / 2\<rfloor>)"
| "mathRound x = x"

text \<open>\<^verbatim>\<open>Math.sqrt(x)\<close>\<close>

fun mathSqrt :: "number \<Rightarrow> number" where
  "mathSqrt (Fin a) = (if a < 0 then NaN else Fin (sqrt a))"
| "mathSqrt PosInf = PosInf"
| "mathSqrt NegInf = NaN"
| "mathSqrt NaN = NaN"

text \<open>
  \<^verbatim>\<open>Math.exp(x)\<close>: the result is \<^verbatim>\<open>Infinity\<close> once \<open>e\<^sup>x\<close> reaches the overflow threshold of
  doubles (half a unit in the last place above the largest double), and 0 once it falls
  to half the smallest positive double.
\<close>

fun mathExp :: "number \<Rightarrow> number" where
  "mathExp (Fin a) =
     (if 2 ^ 1024 - 2 ^ 970 \<le> exp a then PosInf
      else if exp a \<le> 1 / 2 ^ 1075 then Fin 0
      else Fin (exp a))"
| "mathExp PosInf = PosInf"
| "mathExp NegInf = Fin 0"
| "mathExp NaN = NaN"

text \<open>\<^verbatim>\<open>xs.length\<close> as a number.\<close>

definition lengthNum :: "'a list \<Rightarrow> number" where
  "lengthNum xs = Fin (real (length xs))"

text \<open>
  \<^verbatim>\<open>xs[i]\<close> in an arithmetic expression: a read past the end yields \<^verbatim>\<open>undefined\<close>, which
  arithmetic converts to \<^verbatim>\<open>NaN\<close>; it does not raise.
\<close>

definition numAt :: "number list \<Rightarrow> nat \<Rightarrow> number" where
  "numAt xs i = (if i < length xs then xs ! i else NaN)"

text \<open>\<^verbatim>\<open>xs.reduce((sum, val) => sum + val, 0)\<close>\<close>

definition sumReduce :: "number list \<Rightarrow> number" where
  "sumReduce xs = fold (\<lambda>val sum. jsAdd sum val) xs (Fin 0)"

section \<open>Cross-validator service\<close>

subsection \<open>Data\<close>

text \<open>
  The interfaces of \<^verbatim>\<open>crossValidator.ts\<close>. The optional \<^verbatim>\<open>evidence\<close> blob of a
  validation is never read by the service and is kept as an opaque optional text. Field
  names shared by two interfaces carry a prefix on the later one.
\<close>

record Validation =
  validator :: string
  result :: bool
  trustScore :: number
  timestamp :: number
  evidence :: "string option"

record ValidationResult =
  dataId :: string
  isValid :: bool
  weightedPositive :: number
  weightedNegative :: number
  consensusRatio :: number
  validations :: "Validation list"
  resultTimestamp :: number

record ConsensusConfig =
  minValidations :: number
  consensusThreshold :: number
  timeoutMs :: number

text \<open>\<^verbatim>\<open>Partial<ConsensusConfig>\<close>: every field may be absent.\<close>

record PartialConsensusConfig =
  optMinValidations :: "number option"
  optConsensusThreshold :: "number option"
  optTimeoutMs :: "number option"

definition defaultConfig :: ConsensusConfig where
  "defaultConfig =
     \<lparr>minValidations = Fin 3, consensusThreshold = Fin (66 / 100), timeoutMs = Fin 30000\<rparr>"

text \<open>\<^verbatim>\<open>{ ...this.defaultConfig, ...config }\<close>: a field present in \<open>config\<close> wins.\<close>

definition mergeConfig :: "PartialConsensusConfig \<Rightarrow> ConsensusConfig" where
  "mergeConfig config =
     \<lparr>minValidations =
        (case optMinValidations config of None \<Rightarrow> minValidations defaultConfig | Some m \<Rightarrow> m),
      consensusThreshold =
        (case optConsensusThreshold config of
           None \<Rightarrow> consensusThreshold defaultConfig | Some t \<Rightarrow> t),
      timeoutMs =
        (case optTimeoutMs config of None \<Rightarrow> timeoutMs defaultConfig | Some t \<Rightarrow> t)\<rparr>"

subsection \<open>aggregateValidations\<close>

text \<open>
  The weighting loop: the pair is \<open>(weightedPositive, weightedNegative)\<close>, updated once
  per validation in array order.
\<close>

fun weighValidations :: "Validation list \<Rightarrow> number \<times> number \<Rightarrow> number \<times> number" where
  "weighValidations [] acc = acc"
| "weighValidations (v # vs) (wp, wn) =
     (if result v then weighValidations vs (jsAdd wp (trustScore v), wn)
      else weighValidations vs (wp, jsAdd wn (trustScore v)))"

text \<open>
  \<open>now\<close> is the value of \<^verbatim>\<open>Date.now()\<close> at the return. The function has no \<^verbatim>\<open>throw\<close>:
  both outcomes are ordinary return values. Logging is not modelled.
\<close>

definition aggregateValidations ::
  "number \<Rightarrow> string \<Rightarrow> Validation list \<Rightarrow> PartialConsensusConfig \<Rightarrow> ValidationResult" where
  "aggregateValidations now dId vs config =
     (let finalConfig = mergeConfig config in
      if jsLt (lengthNum vs) (minValidations finalConfig) then
        \<lparr>dataId = dId, isValid = False, weightedPositive = Fin 0, weightedNegative = Fin 0,
         consensusRatio = Fin 0, validations = vs, resultTimestamp = now\<rparr>
      else
        (let (wp, wn) = weighValidations vs (Fin 0, Fin 0);
             totalWeight = jsAdd wp wn;
             ratio = (if jsGt totalWeight (Fin 0) then jsDiv wp totalWeight else Fin 0);
             valid = jsGe ratio (consensusThreshold finalConfig)
         in \<lparr>dataId = dId, isValid = valid, weightedPositive = wp, weightedNegative = wn,
             consensusRatio = ratio, validations = vs, resultTimestamp = now\<rparr>))"

subsection \<open>calculateCorrelation\<close>

text \<open>\<^verbatim>\<open>a.map(val => val ? 1 : 0)\<close>\<close>

definition toNumeric :: "bool list \<Rightarrow> number list" where
  "toNumeric a = map (\<lambda>val. if val then Fin 1 else Fin 0) a"

text \<open>
  One round of the loop; the state is \<open>(numerator, denominatorA, denominatorB)\<close>. The loop
  runs over the indices of the first array and reads the second at the same index.
\<close>

definition correlationStep ::
  "number list \<Rightarrow> number list \<Rightarrow> number \<Rightarrow> number \<Rightarrow> nat
     \<Rightarrow> number \<times> number \<times> number \<Rightarrow> number \<times> number \<times> number" where
  "correlationStep numA numB meanA meanB i acc =
     (let diffA = jsSub (numAt numA i) meanA;
          diffB = jsSub (numAt numB i) meanB
      in (jsAdd (fst acc) (jsMul diffA diffB),
          jsAdd (fst (snd acc)) (jsMul diffA diffA),
          jsAdd (snd (snd acc)) (jsMul diffB diffB)))"

definition calculateCorrelation :: "bool list \<Rightarrow> bool list \<Rightarrow> number" where
  "calculateCorrelation a b =
     (let numA = toNumeric a;
          numB = toNumeric b;
          meanA = jsDiv (sumReduce numA) (lengthNum numA);
          meanB = jsDiv (sumReduce numB) (lengthNum numB);
          (numerator, denominatorA, denominatorB) =
             fold (correlationStep numA numB meanA meanB) [0 ..< length numA]
               (Fin 0, Fin 0, Fin 0);
          denominator = mathSqrt (jsMul denominatorA denominatorB)
      in if jsGt denominator (Fin 0) then jsDiv numerator denominator else Fin 0)"

subsection \<open>detectCollusion\<close>

record CollusionReport =
  detected :: bool
  probability :: number
  suspects :: "string list"

text \<open>
  The objects \<^verbatim>\<open>patterns\<close> and \<^verbatim>\<open>validationCounts\<close> are dictionaries keyed by validator
  id (the key \<^verbatim>\<open>__proto__\<close>, which JavaScript objects treat specially, is left out of the
  model). A count starts at 0 and is only ever incremented, so it is a natural number.
\<close>

type_synonym patterns = "string \<rightharpoonup> bool list"
type_synonym validationCounts = "string \<rightharpoonup> nat"

text \<open>The first loop: an empty pattern and a zero count for every candidate.\<close>

definition initPatterns :: "string list \<Rightarrow> patterns \<times> validationCounts" where
  "initPatterns validatorIds =
     fold (\<lambda>validatorId (p, c). (p(validatorId \<mapsto> []), c(validatorId \<mapsto> 0)))
       validatorIds (Map.empty, Map.empty)"

text \<open>
  The body of the inner collection loop. The vote of a candidate is appended to the
  candidate's pattern; a read of a key that was never initialised cannot happen, since
  the first loop covers every id that passes the \<^verbatim>\<open>includes\<close> test.
\<close>

definition recordVote ::
  "string list \<Rightarrow> Validation \<Rightarrow> patterns \<times> validationCounts \<Rightarrow> patterns \<times> validationCounts"
  where
  "recordVote validatorIds v pc =
     (if validator v \<in> set validatorIds then
        (case (fst pc (validator v), snd pc (validator v)) of
           (Some pat, Some n) \<Rightarrow>
             ((fst pc)(validator v \<mapsto> pat @ [result v]), (snd pc)(validator v \<mapsto> Suc n))
         | _ \<Rightarrow> pc)
      else pc)"

text \<open>The two nested collection loops, over the past results and their validations.\<close>

definition collectPatterns ::
  "ValidationResult list \<Rightarrow> string list \<Rightarrow> patterns \<times> validationCounts" where
  "collectPatterns pastResults validatorIds =
     fold (\<lambda>validation pc. fold (recordVote validatorIds) (validations validation) pc)
       pastResults (initPatterns validatorIds)"

text \<open>\<^verbatim>\<open>patterns[id]\<close> and \<^verbatim>\<open>validationCounts[id]\<close> for an initialised id.\<close>

definition patternOf :: "patterns \<Rightarrow> string \<Rightarrow> bool list" where
  "patternOf p k = (case p k of Some pat \<Rightarrow> pat | None \<Rightarrow> [])"

definition countOf :: "validationCounts \<Rightarrow> string \<Rightarrow> nat" where
  "countOf c k = (case c k of Some n \<Rightarrow> n | None \<Rightarrow> 0)"

text \<open>The index pairs \<open>(i, j)\<close> with \<open>i < j < n\<close>, in the order of the two nested loops.\<close>

definition indexPairs :: "nat \<Rightarrow> (nat \<times> nat) list" where
  "indexPairs n = concat (map (\<lambda>i. map (\<lambda>j. (i, j)) [i + 1 ..< n]) [0 ..< n])"

text \<open>
  The body of the pair loop; the state is \<open>(suspects, maxCorrelation)\<close>. A pair is skipped
  (\<^verbatim>\<open>continue\<close>) when the smaller of the two validators' own vote counts is below 5.
\<close>

definition checkPair ::
  "patterns \<Rightarrow> validationCounts \<Rightarrow> string list \<Rightarrow> nat \<times> nat
     \<Rightarrow> string list \<times> number \<Rightarrow> string list \<times> number" where
  "checkPair p c validatorIds ij acc =
     (let validatorA = validatorIds ! fst ij;
          validatorB = validatorIds ! snd ij;
          minVotes = min (countOf c validatorA) (countOf c validatorB)
      in if minVotes < 5 then acc
         else
           (let correlation =
                  calculateCorrelation (patternOf p validatorA) (patternOf p validatorB)
            in if jsGt correlation (Fin (9 / 10)) then
                 (let s1 = (if validatorA \<in> set (fst acc) then fst acc
                            else fst acc @ [validatorA]);
                      s2 = (if validatorB \<in> set s1 then s1 else s1 @ [validatorB])
                  in (s2, mathMax (snd acc) correlation))
               else acc))"

definition detectCollusion :: "ValidationResult list \<Rightarrow> string list \<Rightarrow> CollusionReport" where
  "detectCollusion pastResults validatorIds =
     (if length pastResults < 5 \<or> length validatorIds < 2 then
        \<lparr>detected = False, probability = Fin 0, suspects = []\<rparr>
      else
        (let (p, c) = collectPatterns pastResults validatorIds;
             (found, maxCorrelation) =
                fold (checkPair p c validatorIds) (indexPairs (length validatorIds)) ([], Fin 0)
         in \<lparr>detected = (length found > 0), probability = maxCorrelation, suspects = found\<rparr>))"

subsection \<open>Library functions of the platform\<close>

text \<open>
  Three functions of the JavaScript library that \<open>hashValidations\<close> and
  \<open>generateConsensusProof\<close> call are not code of the service and are parameters of the
  model: \<^verbatim>\<open>String.prototype.localeCompare\<close> (negative, zero or positive),
  the conversion of a number to its decimal text (template literals, \<^verbatim>\<open>JSON.stringify\<close>),
  and the quoting of a string by \<^verbatim>\<open>JSON.stringify\<close>.
\<close>

record platform =
  localeCompare :: "string \<Rightarrow> string \<Rightarrow> int"
  numberToString :: "number \<Rightarrow> string"
  jsonQuote :: "string \<Rightarrow> string"

text \<open>
  \<^verbatim>\<open>[...xs].sort(cmp)\<close>. The sort of the language is stable, and for a consistent comparator
  its result is the one of this insertion sort: an element goes in front of the first
  element that it does not exceed, so equal elements keep their order.
\<close>

fun insertSorted :: "('a \<Rightarrow> 'a \<Rightarrow> int) \<Rightarrow> 'a \<Rightarrow> 'a list \<Rightarrow> 'a list" where
  "insertSorted cmp x [] = [x]"
| "insertSorted cmp x (y # ys) =
     (if cmp x y \<le> 0 then x # y # ys else y # insertSorted cmp x ys)"

definition stableSort :: "('a \<Rightarrow> 'a \<Rightarrow> int) \<Rightarrow> 'a list \<Rightarrow> 'a list" where
  "stableSort cmp xs = foldr (insertSorted cmp) xs []"

text \<open>\<^verbatim>\<open>xs.join(sep)\<close>\<close>

definition joinWith :: "string \<Rightarrow> string list \<Rightarrow> string" where
  "joinWith sep xs =
     (case xs of [] \<Rightarrow> [] | x # rest \<Rightarrow> x @ concat (map (\<lambda>y. sep @ y) rest))"

text \<open>A boolean inside a template literal.\<close>

definition boolToString :: "bool \<Rightarrow> string" where
  "boolToString b = (if b then ''true'' else ''false'')"

definition digitChar :: "nat \<Rightarrow> char" where
  "digitChar d = ''0123456789abcdef'' ! d"

text \<open>\<^verbatim>\<open>n.toString(base)\<close> for a natural number \<open>n\<close>.\<close>

function toRadix :: "nat \<Rightarrow> nat \<Rightarrow> string" where
  "toRadix base n =
     (if base < 2 \<or> n < base then [digitChar n]
      else toRadix base (n div base) @ [digitChar (n mod base)])"
  by pat_completeness auto
termination
  by (relation "measure snd") auto

declare toRadix.simps [simp del]

text \<open>\<^verbatim>\<open>s.padStart(n, c)\<close>\<close>

definition padStart :: "nat \<Rightarrow> char \<Rightarrow> string \<Rightarrow> string" where
  "padStart n c s = replicate (n - length s) c @ s"

subsection \<open>hashValidations\<close>

text \<open>
  One round of the hash loop. \<^verbatim>\<open>hash & hash\<close> converts to a signed 32-bit integer, so the
  hash is a 32-bit word and \<^verbatim>\<open>((hash << 5) - hash) + char\<close> wraps around.
\<close>

definition hashStep :: "char \<Rightarrow> 32 word \<Rightarrow> 32 word" where
  "hashStep ch hash = (push_bit 5 hash - hash) + word_of_nat (of_char ch)"

definition hashValidations :: "platform \<Rightarrow> Validation list \<Rightarrow> string" where
  "hashValidations pf vs =
     (let sortedValidations =
            stableSort (\<lambda>a b. localeCompare pf (validator a) (validator b)) vs;
          validationString =
            joinWith ''|''
              (map (\<lambda>v. validator v @ '':'' @ boolToString (result v) @ '':''
                         @ numberToString pf (trustScore v)) sortedValidations);
          hash = fold hashStep validationString 0
      in padStart 8 (CHR ''0'') (toRadix 16 (nat \<bar>sint hash\<bar>)))"

subsection \<open>generateConsensusProof\<close>

record ProofData =
  proofDataId :: string
  proofConsensusRatio :: number
  validationCount :: number
  proofTimestamp :: number
  validationsHash :: string

text \<open>A number in JSON: \<^verbatim>\<open>NaN\<close> and the infinities are written \<^verbatim>\<open>null\<close>.\<close>

definition jsonNumber :: "platform \<Rightarrow> number \<Rightarrow> string" where
  "jsonNumber pf n = (case n of Fin _ \<Rightarrow> numberToString pf n | _ \<Rightarrow> ''null'')"

text \<open>\<^verbatim>\<open>JSON.stringify(proofData)\<close>: the fields in the order of the object literal.\<close>

definition stringifyProofData :: "platform \<Rightarrow> ProofData \<Rightarrow> string" where
  \<open>stringifyProofData pf d =
     ''{"dataId":'' @ jsonQuote pf (proofDataId d)
     @ '',"consensusRatio":'' @ jsonNumber pf (proofConsensusRatio d)
     @ '',"validationCount":'' @ jsonNumber pf (validationCount d)
     @ '',"timestamp":'' @ jsonNumber pf (proofTimestamp d)
     @ '',"validationsHash":'' @ jsonQuote pf (validationsHash d)
     @ ''}''\<close>

text \<open>The returned buffer holds the characters of the JSON text.\<close>

definition generateConsensusProof :: "platform \<Rightarrow> ValidationResult \<Rightarrow> string" where
  "generateConsensusProof pf r =
     stringifyProofData pf
       \<lparr>proofDataId = dataId r,
        proofConsensusRatio = consensusRatio r,
        validationCount = lengthNum (validations r),
        proofTimestamp = resultTimestamp r,
        validationsHash = hashValidations pf (validations r)\<rparr>"

section \<open>Trust scorer service\<close>

subsection \<open>Data\<close>

text \<open>
  The interfaces of the trust scoring service. An optional field is an \<open>option\<close>;
  \<^verbatim>\<open>x ?? d\<close> yields \<open>d\<close> exactly when the field is absent (\<^verbatim>\<open>undefined\<close> or \<^verbatim>\<open>null\<close>).
\<close>

record AccuracyHistory =
  historyTimestamp :: number
  score :: number

record TrustScoreParams =
  baseScore :: "number option"
  accuracyHistory :: "AccuracyHistory list option"
  consistencyFactor :: "number option"
  validationSuccessRate :: "number option"
  domainExpertise :: "(string \<times> number) list option"
  totalSubmissions :: "number option"

record TrustScoreWeights =
  accuracy :: number
  consistency :: number
  validation :: number

text \<open>\<^verbatim>\<open>Partial<TrustScoreWeights>\<close>\<close>

record PartialTrustScoreWeights =
  optAccuracy :: "number option"
  optConsistency :: "number option"
  optValidation :: "number option"

definition defaultWeights :: TrustScoreWeights where
  "defaultWeights = \<lparr>accuracy = Fin (6 / 10), consistency = Fin (2 / 10), validation = Fin (2 / 10)\<rparr>"

definition decayRate :: number where
  "decayRate = Fin (5 / 100)"

text \<open>\<^verbatim>\<open>x ?? d\<close>\<close>

definition orDefault :: "'a option \<Rightarrow> 'a \<Rightarrow> 'a" where
  "orDefault x d = (case x of None \<Rightarrow> d | Some v \<Rightarrow> v)"

subsection \<open>normalizeWeights\<close>

definition normalizeWeights :: "TrustScoreWeights \<Rightarrow> TrustScoreWeights" where
  "normalizeWeights weights =
     (let total = jsAdd (jsAdd (accuracy weights) (consistency weights)) (validation weights)
      in \<lparr>accuracy = jsDiv (accuracy weights) total,
          consistency = jsDiv (consistency weights) total,
          validation = jsDiv (validation weights) total\<rparr>)"

subsection \<open>calculateDecayedAccuracy\<close>

text \<open>
  One round of the loop over the history; the state is \<open>(totalWeight, weightedSum)\<close> and
  \<open>now\<close> is the value \<^verbatim>\<open>Date.now()\<close> returned before the loop.
\<close>

definition decayStep :: "number \<Rightarrow> AccuracyHistory \<Rightarrow> number \<times> number \<Rightarrow> number \<times> number" where
  "decayStep now entry acc =
     (let ageInDays = jsDiv (jsSub now (historyTimestamp entry)) (Fin (24 * 60 * 60 * 1000));
          weight = mathExp (jsMul (jsNeg decayRate) ageInDays)
      in (jsAdd (fst acc) weight, jsAdd (snd acc) (jsMul (score entry) weight)))"

definition calculateDecayedAccuracy :: "number \<Rightarrow> AccuracyHistory list \<Rightarrow> number" where
  "calculateDecayedAccuracy now history =
     (if length history = 0 then Fin 500
      else
        (let (totalWeight, weightedSum) = fold (decayStep now) history (Fin 0, Fin 0)
         in if jsGt totalWeight (Fin 0) then mathRound (jsDiv weightedSum totalWeight)
            else Fin 500))"

subsection \<open>calculateTrustScore\<close>

definition calculateTrustScore ::
  "number \<Rightarrow> TrustScoreParams \<Rightarrow> PartialTrustScoreWeights \<Rightarrow> number" where
  "calculateTrustScore now params weights =
     (let history = orDefault (accuracyHistory params) [];
          consistencyF = orDefault (consistencyFactor params) (Fin 500);
          validationRate = orDefault (validationSuccessRate params) (Fin 500);
          finalWeights = normalizeWeights
            \<lparr>accuracy = orDefault (optAccuracy weights) (accuracy defaultWeights),
             consistency = orDefault (optConsistency weights) (consistency defaultWeights),
             validation = orDefault (optValidation weights) (validation defaultWeights)\<rparr>;
          accuracyFactor = calculateDecayedAccuracy now history;
          weightedAccuracy = mathRound (jsMul accuracyFactor (accuracy finalWeights));
          weightedConsistency = mathRound (jsMul consistencyF (consistency finalWeights));
          weightedValidation = mathRound (jsMul validationRate (validation finalWeights))
      in mathMin (Fin 1000)
           (mathMax (Fin 0)
              (jsAdd (jsAdd weightedAccuracy weightedConsistency) weightedValidation)))"

subsection \<open>updateTrustScore\<close>

text \<open>The third argument is optional and defaults to \<^verbatim>\<open>0.1\<close>.\<close>

definition updateTrustScore :: "number \<Rightarrow> number \<Rightarrow> number option \<Rightarrow> number" where
  "updateTrustScore currentScore newEvidence evidenceWeight =
     (let w = (case evidenceWeight of None \<Rightarrow> Fin (1 / 10) | Some e \<Rightarrow> e);
          normalizedWeight = mathMax (Fin 0) (mathMin (Fin 1) w);
          updatedScore = mathRound
            (jsAdd (jsMul currentScore (jsSub (Fin 1) normalizedWeight))
                   (jsMul newEvidence normalizedWeight))
      in mathMin (Fin 1000) (mathMax (Fin 0) updatedScore))"

subsection \<open>linearRegression\<close>

text \<open>
  One round of the loop; the state is \<open>(numerator, denominator)\<close>.
  \<^verbatim>\<open>Math.pow(d, 2)\<close> is the product \<open>d * d\<close>.
\<close>

definition regressionStep ::
  "number list \<Rightarrow> number list \<Rightarrow> number \<Rightarrow> number \<Rightarrow> nat \<Rightarrow> number \<times> number \<Rightarrow> number \<times> number"
  where
  "regressionStep x y meanX meanY i acc =
     (let dx = jsSub (numAt x i) meanX
      in (jsAdd (fst acc) (jsMul dx (jsSub (numAt y i) meanY)),
          jsAdd (snd acc) (jsMul dx dx)))"

text \<open>The result is the pair \<open>(slope, intercept)\<close>. \<^verbatim>\<open>NaN !== 0\<close> holds.\<close>

definition linearRegression :: "number list \<Rightarrow> number list \<Rightarrow> number \<times> number" where
  "linearRegression x y =
     (let meanX = jsDiv (sumReduce x) (lengthNum x);
          meanY = jsDiv (sumReduce y) (lengthNum y);
          (numerator, denominator) =
             fold (regressionStep x y meanX meanY) [0 ..< length x] (Fin 0, Fin 0);
          slope = (if denominator \<noteq> Fin 0 then jsDiv numerator denominator else Fin 0);
          intercept = jsSub meanY (jsMul slope meanX)
      in (slope, intercept))"

subsection \<open>predictTrustScoreTrend\<close>

text \<open>
  The second argument is optional and defaults to 30. Nothing in the \<^verbatim>\<open>try\<close> block can
  raise, so the \<^verbatim>\<open>catch\<close> branch is never taken.
\<close>

definition predictTrustScoreTrend ::
  "number \<Rightarrow> AccuracyHistory list \<Rightarrow> number option \<Rightarrow> number" where
  "predictTrustScoreTrend now history daysToPredict =
     (if length history < 3 then
        (if length history > 0 then score (history ! (length history - 1)) else Fin 500)
      else
        (let days = (case daysToPredict of None \<Rightarrow> Fin 30 | Some d \<Rightarrow> d);
             (slope, intercept) =
                linearRegression (map historyTimestamp history) (map score history);
             futureTimestamp =
                jsAdd now (jsMul (jsMul (jsMul (jsMul days (Fin 24)) (Fin 60)) (Fin 60)) (Fin 1000));
             predictedScore = jsAdd (jsMul slope futureTimestamp) intercept
         in mathMin (Fin 1000) (mathMax (Fin 0) (mathRound predictedScore))))"

section \<open>Notions of the specification\<close>

text \<open>
  The ordered sequence of the votes of one validator over all past results in which the
  validator took part.
\<close>

definition votesOf :: "string \<Rightarrow> ValidationResult list \<Rightarrow> bool list" where
  "votesOf k pastResults =
     map result (filter (\<lambda>v. validator v = k) (concat (map validations pastResults)))"

text \<open>
  A trust score of the specification: an integer of the range from 0 to 1000. Sums of
  such scores are integers far below \<open>2^53\<close>, on which the addition of doubles is exact.
\<close>

definition isTrustScore :: "number \<Rightarrow> bool" where
  "isTrustScore x =
     (case x of Fin r \<Rightarrow> of_int \<lfloor>r\<rfloor> = r \<and> 0 \<le> r \<and> r \<le> 1000 | _ \<Rightarrow> False)"

text \<open>A finite number of the range from 0 to 1000, integer or not.\<close>

definition inTrustRange :: "number \<Rightarrow> bool" where
  "inTrustRange x = (case x of Fin r \<Rightarrow> 0 \<le> r \<and> r \<le> 1000 | _ \<Rightarrow> False)"

text \<open>The votes that one validator cast on one claim, that is, in one past result.\<close>

definition votesIn :: "string \<Rightarrow> ValidationResult \<Rightarrow> bool list" where
  "votesIn k r = map result (filter (\<lambda>v. validator v = k) (validations r))"

text \<open>The number of past results in which both validators voted: their shared claims.\<close>

definition commonClaims :: "string \<Rightarrow> string \<Rightarrow> ValidationResult list \<Rightarrow> nat" where
  "commonClaims a b pastResults =
     length (filter (\<lambda>r. a \<in> set (map validator (validations r))
                        \<and> b \<in> set (map validator (validations r))) pastResults)"

text \<open>
  The correlation of a pair of candidates, as a list of at most one element: present when
  both have at least five votes and the correlation of their vote sequences exceeds 0.9,
  that is, when the pair is flagged.
\<close>

definition flagOf :: "ValidationResult list \<Rightarrow> string list \<Rightarrow> nat \<times> nat \<Rightarrow> number list" where
  "flagOf pastResults validatorIds ij =
     (let a = votesOf (validatorIds ! fst ij) pastResults;
          b = votesOf (validatorIds ! snd ij) pastResults;
          correlation = calculateCorrelation a b
      in if 5 \<le> length a \<and> 5 \<le> length b \<and> jsGt correlation (Fin (9 / 10))
         then [correlation] else [])"

text \<open>The correlations of all flagged pairs.\<close>

definition flaggedCorrelations :: "ValidationResult list \<Rightarrow> string list \<Rightarrow> number list" where
  "flaggedCorrelations pastResults validatorIds =
     concat (map (flagOf pastResults validatorIds) (indexPairs (length validatorIds)))"

text \<open>
  A consistent comparator, as the language requires of the argument of \<^verbatim>\<open>sort\<close>: an
  element equals itself, swapping the arguments swaps the sign, and the order is
  transitive.
\<close>

definition consistentComparator :: "('a \<Rightarrow> 'a \<Rightarrow> int) \<Rightarrow> bool" where
  "consistentComparator cmp =
     ((\<forall>a. cmp a a = 0)
      \<and> (\<forall>a b. (cmp a b < 0) = (0 < cmp b a))
      \<and> (\<forall>a b c. cmp a b \<le> 0 \<and> cmp b c \<le> 0 \<longrightarrow> cmp a c \<le> 0))"

section \<open>Auxiliary notions of the proofs\<close>

text \<open>The body of the weighting loop, as a function of one validation.\<close>

definition weighStep :: "Validation \<Rightarrow> number \<times> number \<Rightarrow> number \<times> number" where
  "weighStep v acc =
     (if result v then (jsAdd (fst acc) (trustScore v), snd acc)
      else (fst acc, jsAdd (snd acc) (trustScore v)))"

text \<open>
  The invariant of the collection loops: for every candidate the pattern is \<open>f\<close> of the
  candidate and the count is its length.
\<close>

definition tracks ::
  "string list \<Rightarrow> patterns \<times> validationCounts \<Rightarrow> (string \<Rightarrow> bool list) \<Rightarrow> bool" where
  "tracks ids pc f =
     (\<forall>k \<in> set ids. fst pc k = Some (f k) \<and> snd pc k = Some (length (f k)))"

text \<open>A vote as the real number 1 or 0.\<close>

definition bit01 :: "bool \<Rightarrow> real" where
  "bit01 b = (if b then 1 else 0)"

section \<open>Sample data\<close>

text \<open>A validation with a finite trust score, cast at time 0, without evidence.\<close>

definition opinion :: "string \<Rightarrow> bool \<Rightarrow> real \<Rightarrow> Validation" where
  "opinion name vote trust =
     \<lparr>validator = name, result = vote, trustScore = Fin trust, timestamp = Fin 0,
      evidence = None\<rparr>"

text \<open>The empty configuration object \<^verbatim>\<open>{}\<close>, the default argument.\<close>

definition noConfig :: PartialConsensusConfig where
  "noConfig =
     \<lparr>optMinValidations = None, optConsensusThreshold = None, optTimeoutMs = None\<rparr>"

text \<open>A past result that holds the given validations; its other fields play no role.\<close>

definition pastResult :: "Validation list \<Rightarrow> ValidationResult" where
  "pastResult vs =
     \<lparr>dataId = ''claim'', isValid = True, weightedPositive = Fin 0, weightedNegative = Fin 0,
      consensusRatio = Fin 0, validations = vs, resultTimestamp = Fin 0\<rparr>"

text \<open>The empty parameter object and a weight triple that is all zeros.\<close>

definition noParams :: TrustScoreParams where
  "noParams =
     \<lparr>baseScore = None, accuracyHistory = None, consistencyFactor = None,
      validationSuccessRate = None, domainExpertise = None, totalSubmissions = None\<rparr>"

definition zeroWeights :: PartialTrustScoreWeights where
  "zeroWeights =
     \<lparr>optAccuracy = Some (Fin 0), optConsistency = Some (Fin 0), optValidation = Some (Fin 0)\<rparr>"

text \<open>Five past results in which \<open>a\<close> and \<open>b\<close> both vote \<open>true\<close>.\<close>

definition lockstepTrue :: "ValidationResult list" where
  "lockstepTrue = replicate 5 (pastResult [opinion ''a'' True 500, opinion ''b'' True 500])"

text \<open>Six past results in which \<open>a\<close> and \<open>b\<close> cast the same vote, three for, three against.\<close>

definition lockstepMixed :: "ValidationResult list" where
  "lockstepMixed =
     map (\<lambda>vote. pastResult [opinion ''a'' vote 500, opinion ''b'' vote 500])
       [True, True, True, False, False, False]"

text \<open>
  Twelve past results: \<open>a\<close> alone votes in the first six, \<open>b\<close> alone in the last six. The
  two validators share no claim.
\<close>

definition disjointHistory :: "ValidationResult list" where
  "disjointHistory =
     map (\<lambda>vote. pastResult [opinion ''a'' vote 500]) [True, True, True, False, False, False]
     @ map (\<lambda>vote. pastResult [opinion ''b'' vote 500]) [True, True, True, False, False, False]"

text \<open>Six past results: \<open>a\<close> votes in all of them, \<open>b\<close> in the first five only.\<close>

definition unevenHistory :: "ValidationResult list" where
  "unevenHistory =
     map (\<lambda>vote. pastResult [opinion ''a'' vote 500, opinion ''b'' vote 500])
       [True, True, True, False, False]
     @ [pastResult [opinion ''a'' False 500]]"

text \<open>
  Stand-ins for the three library functions, for evaluation on sample data: comparison
  by character codes, the decimal text of an integer, and quoting without escapes. They
  agree with the library on the sample data (equal strings compare as 0; small integers;
  texts without quotes, backslashes and control characters).
\<close>

definition codeUnitCompare :: "string \<Rightarrow> string \<Rightarrow> int" where
  "codeUnitCompare a b = (if a < b then - 1 else if a = b then 0 else 1)"

definition decimalString :: "number \<Rightarrow> string" where
  "decimalString n =
     (case n of
        Fin r \<Rightarrow> (if r < 0 then ''-'' else []) @ toRadix 10 (nat \<lfloor>\<bar>r\<bar>\<rfloor>)
      | PosInf \<Rightarrow> ''Infinity'' | NegInf \<Rightarrow> ''-Infinity'' | NaN \<Rightarrow> ''NaN'')"

definition plainQuote :: "string \<Rightarrow> string" where
  \<open>plainQuote s = ''"'' @ s @ ''"''\<close>

definition samplePlatform :: platform where
  "samplePlatform =
     \<lparr>localeCompare = codeUnitCompare, numberToString = decimalString, jsonQuote = plainQuote\<rparr>"

section \<open>Properties of the consensus engine\<close>

subsection \<open>Arithmetic facts\<close>

lemma jsAdd_commute: "jsAdd a b = jsAdd b a"
  by (cases a; cases b) simp_all

lemma jsAdd_assoc: "jsAdd (jsAdd a b) c = jsAdd a (jsAdd b c)"
  by (cases a; cases b; cases c) simp_all

lemma jsAdd_left_commute: "jsAdd a (jsAdd b c) = jsAdd b (jsAdd a c)"
  by (cases a; cases b; cases c) simp_all

subsection \<open>The weighting loop as a fold\<close>

lemma weighValidations_fold: "weighValidations vs acc = fold weighStep vs acc"
proof (induction vs arbitrary: acc)
  case Nil
  show ?case by simp
next
  case (Cons v vs)
  obtain wp wn where acc: "acc = (wp, wn)" by (cases acc)
  show ?case unfolding acc by (simp add: Cons.IH weighStep_def)
qed

lemma weighStep_commute: "weighStep v \<circ> weighStep w = weighStep w \<circ> weighStep v"
proof (rule ext)
  fix acc :: "number \<times> number"
  have "jsAdd (jsAdd a x) y = jsAdd (jsAdd a y) x" for a x y
    by (simp add: jsAdd_assoc jsAdd_left_commute jsAdd_commute [of x y])
  then show "(weighStep v \<circ> weighStep w) acc = (weighStep w \<circ> weighStep v) acc"
    by (simp add: weighStep_def)
qed

lemma weighValidations_mset:
  assumes "mset vs' = mset vs"
  shows "weighValidations vs' acc = weighValidations vs acc"
proof -
  have "fold weighStep vs' = fold weighStep vs"
    by (rule fold_multiset_equiv) (simp_all add: weighStep_commute assms)
  then show ?thesis by (simp add: weighValidations_fold)
qed

lemma weighValidations_finite_nonneg:
  assumes "\<forall>v \<in> set vs. \<exists>r. 0 \<le> r \<and> trustScore v = Fin r" and "0 \<le> p" and "0 \<le> n"
  shows "\<exists>p' n'. 0 \<le> p' \<and> 0 \<le> n' \<and> weighValidations vs (Fin p, Fin n) = (Fin p', Fin n')"
  using assms
proof (induction vs arbitrary: p n)
  case Nil
  then show ?case by simp
next
  case (Cons v vs)
  from Cons.prems(1) obtain r where r: "0 \<le> r" "trustScore v = Fin r" by auto
  from Cons.prems(1) have rest: "\<forall>v \<in> set vs. \<exists>r. 0 \<le> r \<and> trustScore v = Fin r" by simp
  show ?case
  proof (cases "result v")
    case True
    have "0 \<le> p + r" using r(1) Cons.prems(2) by simp
    from Cons.IH [OF rest this Cons.prems(3)] show ?thesis using True r(2) by simp
  next
    case False
    have "0 \<le> n + r" using r(1) Cons.prems(3) by simp
    from Cons.IH [OF rest Cons.prems(2) this] show ?thesis using False r(2) by simp
  qed
qed

subsection \<open>Insufficient rounds\<close>



subsection \<open>Order of the opinions\<close>

lemma isTrustScore_int:
  assumes "isTrustScore x"
  shows "\<exists>k::int. 0 \<le> k \<and> k \<le> 1000 \<and> x = Fin (of_int k)"
proof (cases x)
  case (Fin r)
  from assms have "of_int \<lfloor>r\<rfloor> = r \<and> 0 \<le> r \<and> r \<le> 1000"
    by (simp only: isTrustScore_def Fin number.case)
  then have r: "of_int \<lfloor>r\<rfloor> = r" "0 \<le> r" "r \<le> 1000" by blast+
  have lo: "0 \<le> \<lfloor>r\<rfloor>" and hi: "\<lfloor>r\<rfloor> \<le> 1000" using r(2,3) by linarith+
  have eq: "x = Fin (of_int \<lfloor>r\<rfloor>)" by (simp only: Fin r(1))
  from lo hi eq show ?thesis by blast
next
  case PosInf
  with assms show ?thesis by (simp add: isTrustScore_def)
next
  case NegInf
  with assms show ?thesis by (simp add: isTrustScore_def)
next
  case NaN
  with assms show ?thesis by (simp add: isTrustScore_def)
qed

text \<open>
  On trust scores every partial sum of the weighting loop is an integer between 0 and
  1000 times the number of opinions: the sums that the code forms in doubles are exact.
\<close>

lemma weighValidations_integral:
  assumes "\<forall>v \<in> set vs. isTrustScore (trustScore v)" and "0 \<le> p" and "0 \<le> n"
  shows "\<exists>p' n' :: int. 0 \<le> p' \<and> 0 \<le> n' \<and> p' + n' \<le> p + n + 1000 * int (length vs)
           \<and> weighValidations vs (Fin (of_int p), Fin (of_int n))
               = (Fin (of_int p'), Fin (of_int n'))"
  using assms
proof (induction vs arbitrary: p n)
  case Nil
  then show ?case by (intro exI [of _ p] exI [of _ n]) simp
next
  case (Cons v vs)
  from Cons.prems(1) obtain k :: int where k: "0 \<le> k" "k \<le> 1000" "trustScore v = Fin (of_int k)"
    using isTrustScore_int [of "trustScore v"] by auto
  from Cons.prems(1) have rest: "\<forall>v \<in> set vs. isTrustScore (trustScore v)" by simp
  show ?case
  proof (cases "result v")
    case True
    have "0 \<le> p + k" using k(1) Cons.prems(2) by simp
    from Cons.IH [OF rest this Cons.prems(3)] obtain p' n' :: int where
      "0 \<le> p'" "0 \<le> n'" "p' + n' \<le> p + k + n + 1000 * int (length vs)"
      "weighValidations vs (Fin (of_int (p + k)), Fin (of_int n)) = (Fin (of_int p'), Fin (of_int n'))"
      by blast
    then show ?thesis using True k
      by (intro exI [of _ p'] exI [of _ n']) simp
  next
    case False
    have "0 \<le> n + k" using k(1) Cons.prems(3) by simp
    from Cons.IH [OF rest Cons.prems(2) this] obtain p' n' :: int where
      "0 \<le> p'" "0 \<le> n'" "p' + n' \<le> p + (n + k) + 1000 * int (length vs)"
      "weighValidations vs (Fin (of_int p), Fin (of_int (n + k))) = (Fin (of_int p'), Fin (of_int n'))"
      by blast
    then show ?thesis using False k
      by (intro exI [of _ p'] exI [of _ n']) simp
  qed
qed

text \<open>
  C3. Reordering the opinions changes none of the two weighted sums, the consensus ratio
  and the verdict: for every list \<open>vs\<close> of opinions that carry trust scores, every
  permutation \<open>vs'\<close> of it and every configuration the four fields agree.
\<close>

theorem aggregateValidations_permutation:
  assumes "mset vs' = mset vs" and "\<forall>v \<in> set vs. isTrustScore (trustScore v)"
  shows "weightedPositive (aggregateValidations now dId vs' config)
           = weightedPositive (aggregateValidations now dId vs config)
         \<and> weightedNegative (aggregateValidations now dId vs' config)
           = weightedNegative (aggregateValidations now dId vs config)
         \<and> consensusRatio (aggregateValidations now dId vs' config)
           = consensusRatio (aggregateValidations now dId vs config)
         \<and> isValid (aggregateValidations now dId vs' config)
           = isValid (aggregateValidations now dId vs config)"
proof -
  have len: "lengthNum vs' = lengthNum vs"
    using mset_eq_length [OF assms(1)] by (simp add: lengthNum_def)
  have sums: "weighValidations vs' (Fin 0, Fin 0) = weighValidations vs (Fin 0, Fin 0)"
    by (rule weighValidations_mset [OF assms(1)])
  show ?thesis
    by (simp add: aggregateValidations_def len sums Let_def split: prod.splits)
qed

text \<open>The three opinions of the specification's example, in two orders.\<close>

theorem aggregateValidations_permutation_witness:
  "mset [opinion ''c'' False 100, opinion ''a'' True 900, opinion ''b'' False 100]
     = mset [opinion ''a'' True 900, opinion ''b'' False 100, opinion ''c'' False 100]
   \<and> weightedPositive (aggregateValidations (Fin 7) ''claim''
        [opinion ''c'' False 100, opinion ''a'' True 900, opinion ''b'' False 100] noConfig)
     = weightedPositive (aggregateValidations (Fin 7) ''claim''
        [opinion ''a'' True 900, opinion ''b'' False 100, opinion ''c'' False 100] noConfig)"
proof -
  have p: "mset [opinion ''c'' False 100, opinion ''a'' True 900, opinion ''b'' False 100]
     = mset [opinion ''a'' True 900, opinion ''b'' False 100, opinion ''c'' False 100]"
    by (simp add: add.commute)
  have d: "\<forall>v \<in> set [opinion ''a'' True 900, opinion ''b'' False 100, opinion ''c'' False 100].
             isTrustScore (trustScore v)"
    by (simp add: opinion_def isTrustScore_def)
  from aggregateValidations_permutation [OF p d, of "Fin 7" "''claim''" noConfig]
  have "weightedPositive (aggregateValidations (Fin 7) ''claim''
        [opinion ''c'' False 100, opinion ''a'' True 900, opinion ''b'' False 100] noConfig)
     = weightedPositive (aggregateValidations (Fin 7) ''claim''
        [opinion ''a'' True 900, opinion ''b'' False 100, opinion ''c'' False 100] noConfig)"
    by (rule conjunct1)
  with p show ?thesis by (rule conjI)
qed

subsection \<open>The consensus ratio\<close>

lemma inTrustRange_nonneg:
  assumes "\<forall>v \<in> set vs. inTrustRange (trustScore v)"
  shows "\<forall>v \<in> set vs. \<exists>r. 0 \<le> r \<and> trustScore v = Fin r"
proof
  fix v assume "v \<in> set vs"
  then have "inTrustRange (trustScore v)" using assms by simp
  then show "\<exists>r. 0 \<le> r \<and> trustScore v = Fin r"
    by (cases "trustScore v") (simp_all add: inTrustRange_def)
qed

lemma ratio_unit:
  assumes "0 \<le> p" and "0 \<le> n"
  shows "\<exists>q. (if jsGt (jsAdd (Fin p) (Fin n)) (Fin 0) then jsDiv (Fin p) (jsAdd (Fin p) (Fin n))
              else Fin 0) = Fin q \<and> 0 \<le> q \<and> q \<le> 1"
  using assms by (auto simp: jsGt_def divide_le_eq)

lemma ratio_zero_case:
  assumes "0 \<le> p" and "0 \<le> n"
  shows "(if jsGt (jsAdd (Fin p) (Fin n)) (Fin 0) then jsDiv (Fin p) (jsAdd (Fin p) (Fin n))
          else Fin 0)
       = (if Fin p = Fin 0 \<and> Fin n = Fin 0 then Fin 0
          else jsDiv (Fin p) (jsAdd (Fin p) (Fin n)))"
  using assms by (auto simp: jsGt_def)

text \<open>
  C4. For every claim id, every list of opinions whose trust scores lie in the range
  from 0 to 1000 and every configuration, the consensus ratio of the result lies in
  \<open>[0, 1]\<close>; it is 0 when both weighted sums are 0 and otherwise the quotient of the
  positive weighted sum by the total of the two weighted sums.
\<close>

theorem aggregateValidations_ratio:
  assumes "\<forall>v \<in> set vs. inTrustRange (trustScore v)"
  shows "(\<exists>q. consensusRatio (aggregateValidations now dId vs config) = Fin q
              \<and> 0 \<le> q \<and> q \<le> 1)
       \<and> consensusRatio (aggregateValidations now dId vs config)
           = (if weightedPositive (aggregateValidations now dId vs config) = Fin 0
                 \<and> weightedNegative (aggregateValidations now dId vs config) = Fin 0
              then Fin 0
              else jsDiv (weightedPositive (aggregateValidations now dId vs config))
                     (jsAdd (weightedPositive (aggregateValidations now dId vs config))
                            (weightedNegative (aggregateValidations now dId vs config))))"
proof (cases "jsLt (lengthNum vs) (minValidations (mergeConfig config))")
  case True
  then show ?thesis by (simp add: aggregateValidations_def)
next
  case False
  obtain p n where pn: "0 \<le> p" "0 \<le> n"
      "weighValidations vs (Fin 0, Fin 0) = (Fin p, Fin n)"
    using weighValidations_finite_nonneg [OF inTrustRange_nonneg [OF assms], of 0 0] by auto
  have fields: "weightedPositive (aggregateValidations now dId vs config) = Fin p"
    "weightedNegative (aggregateValidations now dId vs config) = Fin n"
    "consensusRatio (aggregateValidations now dId vs config)
       = (if jsGt (jsAdd (Fin p) (Fin n)) (Fin 0)
          then jsDiv (Fin p) (jsAdd (Fin p) (Fin n)) else Fin 0)"
    using False by (simp_all add: aggregateValidations_def pn(3) Let_def)
  show ?thesis
    unfolding fields
    using ratio_unit [OF pn(1,2)] ratio_zero_case [OF pn(1,2)] by simp
qed

text \<open>
  The three opinions of the specification's example, 900 for and twice 100 against: the
  ratio is \<open>900 / 1100\<close>.
\<close>

theorem aggregateValidations_ratio_witness:
  "consensusRatio (aggregateValidations (Fin 7) ''claim''
        [opinion ''a'' True 900, opinion ''b'' False 100, opinion ''c'' False 100] noConfig)
     = Fin (9 / 11)
   \<and> (\<exists>q. consensusRatio (aggregateValidations (Fin 7) ''claim''
        [opinion ''a'' True 900, opinion ''b'' False 100, opinion ''c'' False 100] noConfig)
          = Fin q \<and> 0 \<le> q \<and> q \<le> 1)"
proof -
  let ?vs = "[opinion ''a'' True 900, opinion ''b'' False 100, opinion ''c'' False 100]"
  have h: "\<forall>v \<in> set ?vs. inTrustRange (trustScore v)"
    by (simp add: opinion_def inTrustRange_def)
  have w: "weightedPositive (aggregateValidations (Fin 7) ''claim'' ?vs noConfig) = Fin 900"
     "weightedNegative (aggregateValidations (Fin 7) ''claim'' ?vs noConfig) = Fin 200"
    by (simp_all add: aggregateValidations_def opinion_def noConfig_def mergeConfig_def
      defaultConfig_def lengthNum_def jsGt_def Let_def)
  note main = aggregateValidations_ratio [OF h, of "Fin 7" "''claim''" noConfig]
  have exact: "consensusRatio (aggregateValidations (Fin 7) ''claim'' ?vs noConfig)
                 = Fin (9 / 11)"
    using main by (simp add: w)
  have range: "\<exists>q. consensusRatio (aggregateValidations (Fin 7) ''claim'' ?vs noConfig)
                 = Fin q \<and> 0 \<le> q \<and> q \<le> 1"
    using main by blast
  from exact range show ?thesis by (rule conjI)
qed

section \<open>Properties of collusion detection\<close>

subsection \<open>The collected patterns\<close>

lemma initPatterns_fold:
  "fold (\<lambda>validatorId (p, c). (p(validatorId \<mapsto> []), c(validatorId \<mapsto> 0))) ids (p0, c0)
     = ((\<lambda>k. if k \<in> set ids then Some [] else p0 k),
        (\<lambda>k. if k \<in> set ids then Some 0 else c0 k))"
proof (induction ids arbitrary: p0 c0)
  case Nil
  show ?case by simp
next
  case (Cons a ids)
  have "fold (\<lambda>validatorId (p, c). (p(validatorId \<mapsto> []), c(validatorId \<mapsto> 0))) (a # ids) (p0, c0)
      = fold (\<lambda>validatorId (p, c). (p(validatorId \<mapsto> []), c(validatorId \<mapsto> 0))) ids
          (p0(a \<mapsto> []), c0(a \<mapsto> 0))"
    by simp
  also have "\<dots> = ((\<lambda>k. if k \<in> set ids then Some [] else (p0(a \<mapsto> [])) k),
        (\<lambda>k. if k \<in> set ids then Some 0 else (c0(a \<mapsto> 0)) k))"
    by (rule Cons.IH)
  also have "\<dots> = ((\<lambda>k. if k \<in> set (a # ids) then Some [] else p0 k),
        (\<lambda>k. if k \<in> set (a # ids) then Some 0 else c0 k))"
    by (auto simp: fun_eq_iff)
  finally show ?case .
qed

lemma tracks_init: "tracks ids (initPatterns ids) (\<lambda>k. [])"
  by (simp add: tracks_def initPatterns_def initPatterns_fold)

lemma tracks_cong:
  assumes "tracks ids pc f" and "\<And>k. f k = g k"
  shows "tracks ids pc g"
  using assms by (simp add: tracks_def)

lemma tracks_recordVote:
  assumes "tracks ids pc f"
  shows "tracks ids (recordVote ids v pc)
           (\<lambda>k. f k @ map result (filter (\<lambda>v. validator v = k) [v]))"
  using assms by (auto simp: tracks_def recordVote_def)

lemma tracks_fold_recordVote:
  assumes "tracks ids pc f"
  shows "tracks ids (fold (recordVote ids) vs pc)
           (\<lambda>k. f k @ map result (filter (\<lambda>v. validator v = k) vs))"
  using assms
proof (induction vs arbitrary: pc f)
  case Nil
  then show ?case by simp
next
  case (Cons v vs)
  have "tracks ids (fold (recordVote ids) vs (recordVote ids v pc))
          (\<lambda>k. f k @ map result (filter (\<lambda>v. validator v = k) (v # vs)))"
    by (rule tracks_cong [OF Cons.IH [OF tracks_recordVote [OF Cons.prems, of v]]]) simp
  then show ?case by simp
qed

lemma tracks_fold_results:
  assumes "tracks ids pc f"
  shows "tracks ids
           (fold (\<lambda>validation pc. fold (recordVote ids) (validations validation) pc) rs pc)
           (\<lambda>k. f k @ votesOf k rs)"
  using assms
proof (induction rs arbitrary: pc f)
  case Nil
  then show ?case by (simp add: votesOf_def)
next
  case (Cons r rs)
  have "tracks ids
          (fold (\<lambda>validation pc. fold (recordVote ids) (validations validation) pc) rs
             (fold (recordVote ids) (validations r) pc))
          (\<lambda>k. f k @ votesOf k (r # rs))"
    by (rule tracks_cong
          [OF Cons.IH [OF tracks_fold_recordVote [OF Cons.prems, of "validations r"]]])
       (simp add: votesOf_def)
  then show ?case by simp
qed

text \<open>
  After the collection loops the pattern of a candidate is the sequence of all its votes
  and its count is the length of that sequence; no key is read before it is initialised.
\<close>

lemma tracks_collectPatterns:
  "tracks ids (collectPatterns rs ids) (\<lambda>k. votesOf k rs)"
  unfolding collectPatterns_def
  by (rule tracks_cong [OF tracks_fold_results [OF tracks_init]]) simp

lemma collectPatterns_lookup:
  assumes "collectPatterns rs ids = (p, c)" and "k \<in> set ids"
  shows "patternOf p k = votesOf k rs" and "countOf c k = length (votesOf k rs)"
  using tracks_collectPatterns [of ids rs] assms
  by (simp_all add: tracks_def patternOf_def countOf_def)

subsection \<open>The correlation of a pattern with itself\<close>

lemma toNumeric_Fin: "toNumeric a = map Fin (map bit01 a)"
  by (simp add: toNumeric_def bit01_def)

lemma fold_jsAdd_Fin:
  "fold (\<lambda>val sum. jsAdd sum val) (map Fin xs) (Fin s) = Fin (s + sum_list xs)"
  by (induction xs arbitrary: s) (simp_all add: add.assoc)

lemma sumReduce_Fin: "sumReduce (map Fin xs) = Fin (sum_list xs)"
  by (simp add: sumReduce_def fold_jsAdd_Fin)

lemma numAt_Fin: "i < length xs \<Longrightarrow> numAt (map Fin xs) i = Fin (xs ! i)"
  by (simp add: numAt_def)

lemma fold_correlationStep_Fin:
  assumes "\<forall>i \<in> set js. i < length x \<and> i < length y"
  shows "fold (correlationStep (map Fin x) (map Fin y) (Fin m) (Fin m')) js (Fin a, Fin b, Fin c)
         = (Fin (a + (\<Sum>i\<leftarrow>js. (x ! i - m) * (y ! i - m'))),
            Fin (b + (\<Sum>i\<leftarrow>js. (x ! i - m) * (x ! i - m))),
            Fin (c + (\<Sum>i\<leftarrow>js. (y ! i - m') * (y ! i - m'))))"
  using assms
proof (induction js arbitrary: a b c)
  case Nil
  show ?case by simp
next
  case (Cons j js)
  have j: "j < length x" "j < length y" using Cons.prems by simp_all
  have rest: "\<forall>i \<in> set js. i < length x \<and> i < length y" using Cons.prems by simp
  have step: "correlationStep (map Fin x) (map Fin y) (Fin m) (Fin m') j (Fin a, Fin b, Fin c)
      = (Fin (a + (x ! j - m) * (y ! j - m')), Fin (b + (x ! j - m) * (x ! j - m)),
         Fin (c + (y ! j - m') * (y ! j - m')))"
    by (simp add: correlationStep_def numAt_Fin j jsSub_def)
  show ?case
    by (simp add: step Cons.IH [OF rest] add.assoc)
qed

lemma sum_squares_pos:
  assumes "True \<in> set votes" and "False \<in> set votes"
  shows "0 < (\<Sum>i\<leftarrow>[0 ..< length votes]. (map bit01 votes ! i - m) * (map bit01 votes ! i - m))"
proof -
  let ?f = "\<lambda>i. (map bit01 votes ! i - m) * (map bit01 votes ! i - m)"
  obtain i where i: "i < length votes" "votes ! i = True"
    using assms(1) by (auto simp: in_set_conv_nth)
  obtain j where j: "j < length votes" "votes ! j = False"
    using assms(2) by (auto simp: in_set_conv_nth)
  have nonneg: "0 \<le> ?f k" for k by simp
  have "0 < ?f i \<or> 0 < ?f j"
  proof (cases "m = 1")
    case True
    then have "0 < ?f j" using j by (simp add: bit01_def)
    then show ?thesis ..
  next
    case False
    then have "0 < ?f i" using i by (auto simp: bit01_def zero_less_mult_iff)
    then show ?thesis ..
  qed
  then obtain k where k: "k < length votes" "0 < ?f k" using i(1) j(1) by blast
  have "0 < sum ?f {0 ..< length votes}"
    by (rule sum_pos2 [of _ k]) (use k nonneg in auto)
  then show ?thesis by (simp add: interv_sum_list_conv_sum_set_nat)
qed

text \<open>
  A pattern that holds both a vote for and a vote against has positive variance, and its
  correlation with itself is exactly 1.
\<close>

lemma calculateCorrelation_identical:
  assumes "True \<in> set votes" and "False \<in> set votes"
  shows "calculateCorrelation votes votes = Fin 1"
proof -
  define x where "x = map bit01 votes"
  define m where "m = sum_list x / real (length x)"
  define d where "d = (\<Sum>i\<leftarrow>[0 ..< length votes]. (x ! i - m) * (x ! i - m))"
  have len: "length x = length votes" by (simp add: x_def)
  have "votes \<noteq> []" using assms(1) by auto
  then have n0: "real (length x) \<noteq> 0" by (simp add: len)
  have mean: "jsDiv (sumReduce (map Fin x)) (lengthNum (map Fin x)) = Fin m"
    using n0 by (simp add: sumReduce_Fin lengthNum_def m_def)
  have loop: "fold (correlationStep (map Fin x) (map Fin x) (Fin m) (Fin m))
                [0 ..< length (map Fin x)] (Fin 0, Fin 0, Fin 0) = (Fin d, Fin d, Fin d)"
    using fold_correlationStep_Fin [of "[0 ..< length votes]" x x m m 0 0 0]
    by (simp add: len d_def)
  have dpos: "0 < d" unfolding d_def x_def by (rule sum_squares_pos [OF assms])
  show ?thesis
    unfolding calculateCorrelation_def toNumeric_Fin x_def [symmetric] Let_def mean loop
    using dpos by (simp add: jsGt_def)
qed

subsection \<open>The pair loop\<close>

lemma set_indexPairs: "set (indexPairs n) = {(i, j). i < j \<and> j < n}"
proof -
  have "(i, j) \<in> set (indexPairs n) \<longleftrightarrow> i < j \<and> j < n" for i j
  proof
    assume "(i, j) \<in> set (indexPairs n)"
    then show "i < j \<and> j < n" by (auto simp: indexPairs_def)
  next
    assume "i < j \<and> j < n"
    then have "i \<in> {0 ..< n}" and "(i, j) \<in> Pair i ` {Suc i ..< n}" by auto
    then show "(i, j) \<in> set (indexPairs n)" by (auto simp: indexPairs_def)
  qed
  then show ?thesis by auto
qed

text \<open>The body of the pair loop in terms of the vote sequences.\<close>

lemma checkPair_votesOf:
  assumes "collectPatterns rs ids = (p, c)" and "fst ij < length ids" and "snd ij < length ids"
  shows "checkPair p c ids ij acc =
           (case flagOf rs ids ij of
              [] \<Rightarrow> acc
            | correlation # _ \<Rightarrow>
                (let s1 = (if ids ! fst ij \<in> set (fst acc) then fst acc
                           else fst acc @ [ids ! fst ij]);
                     s2 = (if ids ! snd ij \<in> set s1 then s1 else s1 @ [ids ! snd ij])
                 in (s2, mathMax (snd acc) correlation)))"
proof -
  have a: "ids ! fst ij \<in> set ids" and b: "ids ! snd ij \<in> set ids"
    using assms(2,3) by simp_all
  note look = collectPatterns_lookup [OF assms(1) a] collectPatterns_lookup [OF assms(1) b]
  show ?thesis
    by (simp add: checkPair_def flagOf_def look Let_def not_less min_less_iff_disj not_le)
qed

lemma checkPair_suspects_mono:
  assumes "collectPatterns rs ids = (p, c)" and "fst ij < length ids" and "snd ij < length ids"
  shows "set (fst acc) \<subseteq> set (fst (checkPair p c ids ij acc))"
  unfolding checkPair_votesOf [OF assms]
  by (auto simp: Let_def split: list.splits)

lemma fold_checkPair_suspects_mono:
  assumes "collectPatterns rs ids = (p, c)"
      and "\<forall>ij \<in> set ps. fst ij < length ids \<and> snd ij < length ids"
  shows "set (fst acc) \<subseteq> set (fst (fold (checkPair p c ids) ps acc))"
  using assms(2)
proof (induction ps arbitrary: acc)
  case Nil
  show ?case by simp
next
  case (Cons ij ps)
  have "set (fst acc) \<subseteq> set (fst (checkPair p c ids ij acc))"
    using Cons.prems by (intro checkPair_suspects_mono [OF assms(1)]) simp_all
  also have "\<dots> \<subseteq> set (fst (fold (checkPair p c ids) ps (checkPair p c ids ij acc)))"
    using Cons.prems by (intro Cons.IH) simp
  finally show ?case by simp
qed

lemma checkPair_flagged_members:
  assumes "collectPatterns rs ids = (p, c)" and "fst ij < length ids" and "snd ij < length ids"
      and "flagOf rs ids ij \<noteq> []"
  shows "ids ! fst ij \<in> set (fst (checkPair p c ids ij acc))"
    and "ids ! snd ij \<in> set (fst (checkPair p c ids ij acc))"
  using assms(4) unfolding checkPair_votesOf [OF assms(1-3)]
  by (auto simp: Let_def split: list.splits)

lemma fold_checkPair_flagged_members:
  assumes "collectPatterns rs ids = (p, c)"
      and "\<forall>ij \<in> set ps. fst ij < length ids \<and> snd ij < length ids"
      and "ij \<in> set ps" and "flagOf rs ids ij \<noteq> []"
  shows "ids ! fst ij \<in> set (fst (fold (checkPair p c ids) ps acc))
       \<and> ids ! snd ij \<in> set (fst (fold (checkPair p c ids) ps acc))"
proof -
  obtain xs ys where split: "ps = xs @ ij # ys"
    using assms(3) by (auto simp: in_set_conv_decomp)
  define mid where "mid = checkPair p c ids ij (fold (checkPair p c ids) xs acc)"
  have bounds: "fst ij < length ids" "snd ij < length ids"
    using assms(2,3) by auto
  have ys: "\<forall>ij \<in> set ys. fst ij < length ids \<and> snd ij < length ids"
    using assms(2) split by simp
  have "ids ! fst ij \<in> set (fst mid)" "ids ! snd ij \<in> set (fst mid)"
    unfolding mid_def
    by (rule checkPair_flagged_members [OF assms(1) bounds assms(4)])+
  moreover have "set (fst mid) \<subseteq> set (fst (fold (checkPair p c ids) ys mid))"
    by (rule fold_checkPair_suspects_mono [OF assms(1) ys])
  moreover have "fold (checkPair p c ids) ps acc = fold (checkPair p c ids) ys mid"
    by (simp add: split mid_def)
  ultimately show ?thesis by auto
qed

lemma fold_checkPair_probability:
  assumes "collectPatterns rs ids = (p, c)"
      and "\<forall>ij \<in> set ps. fst ij < length ids \<and> snd ij < length ids"
  shows "snd (fold (checkPair p c ids) ps acc)
           = fold (\<lambda>x m. mathMax m x) (concat (map (flagOf rs ids) ps)) (snd acc)"
  using assms(2)
proof (induction ps arbitrary: acc)
  case Nil
  show ?case by simp
next
  case (Cons ij ps)
  have bounds: "fst ij < length ids" "snd ij < length ids" using Cons.prems by simp_all
  have rest: "\<forall>ij \<in> set ps. fst ij < length ids \<and> snd ij < length ids"
    using Cons.prems by simp
  have head: "snd (checkPair p c ids ij acc)
                = fold (\<lambda>x m. mathMax m x) (flagOf rs ids ij) (snd acc)"
    unfolding checkPair_votesOf [OF assms(1) bounds]
    by (auto simp: Let_def flagOf_def split: list.splits)
  show ?case by (simp add: Cons.IH [OF rest] head)
qed

subsection \<open>The running maximum\<close>

lemma jsGe_trans: "jsGe a b \<Longrightarrow> jsGe b c \<Longrightarrow> jsGe a c"
  by (cases a; cases b; cases c) (simp_all add: jsGe_def)

lemma jsGe_refl: "a \<noteq> NaN \<Longrightarrow> jsGe a a"
  by (cases a) (simp_all add: jsGe_def)

lemma mathMax_cases:
  assumes "m \<noteq> NaN" and "x \<noteq> NaN"
  shows "mathMax m x \<noteq> NaN" and "mathMax m x = m \<or> mathMax m x = x"
    and "jsGe (mathMax m x) m" and "jsGe (mathMax m x) x"
  using assms by (cases m; cases x; simp add: mathMax_def jsGe_def)+

lemma fold_mathMax:
  assumes "m \<noteq> NaN" and "\<forall>x \<in> set xs. x \<noteq> NaN"
  shows "fold (\<lambda>x m. mathMax m x) xs m \<in> insert m (set xs)
       \<and> jsGe (fold (\<lambda>x m. mathMax m x) xs m) m
       \<and> (\<forall>x \<in> set xs. jsGe (fold (\<lambda>x m. mathMax m x) xs m) x)"
  using assms
proof (induction xs arbitrary: m)
  case Nil
  then show ?case by (simp add: jsGe_refl)
next
  case (Cons x xs)
  have x: "x \<noteq> NaN" and rest: "\<forall>x \<in> set xs. x \<noteq> NaN" using Cons.prems(2) by simp_all
  note mx = mathMax_cases [OF Cons.prems(1) x]
  from Cons.IH [OF mx(1) rest] mx(2-4) show ?case
    by (auto intro: jsGe_trans)
qed

lemma fold_mathMax_flagged:
  assumes "xs \<noteq> []" and "\<forall>x \<in> set xs. jsGt x (Fin (9 / 10))"
  shows "fold (\<lambda>x m. mathMax m x) xs (Fin 0) \<in> set xs
       \<and> (\<forall>x \<in> set xs. jsGe (fold (\<lambda>x m. mathMax m x) xs (Fin 0)) x)"
proof -
  let ?r = "fold (\<lambda>x m. mathMax m x) xs (Fin 0)"
  have noNaN: "\<forall>x \<in> set xs. x \<noteq> NaN"
    using assms(2) by (auto simp: jsGt_def)
  have r: "?r \<in> insert (Fin 0) (set xs)" "\<forall>x \<in> set xs. jsGe ?r x"
    using fold_mathMax [of "Fin 0" xs] noNaN by simp_all
  obtain x where x: "x \<in> set xs" using assms(1) by (cases xs) auto
  have "?r \<noteq> Fin 0"
  proof
    assume "?r = Fin 0"
    then have "jsGe (Fin 0) x" using r(2) x by auto
    moreover have "jsGt x (Fin (9 / 10))" using assms(2) x by simp
    ultimately show False by (cases x) (simp_all add: jsGe_def jsGt_def)
  qed
  then show ?thesis using r by auto
qed

lemma set_flagOf: "\<forall>x \<in> set (flagOf rs ids ij). jsGt x (Fin (9 / 10))"
  by (simp add: flagOf_def Let_def)

subsection \<open>Equal patterns\<close>

text \<open>
  What the pair loop does with two candidates whose collected patterns are equal, hold at
  least five votes and are not constant.
\<close>

lemma equal_patterns_flagged:
  assumes "5 \<le> length pastResults"
      and "i < j" and "j < length validatorIds"
      and "votesOf (validatorIds ! i) pastResults = votes"
      and "votesOf (validatorIds ! j) pastResults = votes"
      and "5 \<le> length votes" and "True \<in> set votes" and "False \<in> set votes"
  shows "calculateCorrelation votes votes = Fin 1
       \<and> validatorIds ! i \<in> set (suspects (detectCollusion pastResults validatorIds))
       \<and> validatorIds ! j \<in> set (suspects (detectCollusion pastResults validatorIds))
       \<and> probability (detectCollusion pastResults validatorIds)
           \<in> set (flaggedCorrelations pastResults validatorIds)
       \<and> (\<forall>x \<in> set (flaggedCorrelations pastResults validatorIds).
             jsGe (probability (detectCollusion pastResults validatorIds)) x)"
proof -
  obtain p c where pc: "collectPatterns pastResults validatorIds = (p, c)"
    by (cases "collectPatterns pastResults validatorIds")
  let ?ps = "indexPairs (length validatorIds)"
  define final where "final = fold (checkPair p c validatorIds) ?ps ([], Fin 0)"
  have run: "detectCollusion pastResults validatorIds
               = \<lparr>detected = (length (fst final) > 0), probability = snd final,
                  suspects = fst final\<rparr>"
    using assms(1-3) by (simp add: detectCollusion_def pc final_def split: prod.splits)
  have bounds: "\<forall>ij \<in> set ?ps. fst ij < length validatorIds \<and> snd ij < length validatorIds"
    by (auto simp: set_indexPairs)
  have one: "calculateCorrelation votes votes = Fin 1"
    by (rule calculateCorrelation_identical [OF assms(7,8)])
  have mem: "(i, j) \<in> set ?ps" using assms(2,3) by (simp add: set_indexPairs)
  have flag: "flagOf pastResults validatorIds (i, j) = [Fin 1]"
    using assms(4-6) one by (simp add: flagOf_def jsGt_def)
  have members: "validatorIds ! i \<in> set (fst final) \<and> validatorIds ! j \<in> set (fst final)"
    using fold_checkPair_flagged_members [OF pc bounds mem, of "([], Fin 0)"] flag
    by (simp add: final_def)
  have prob: "snd final
                = fold (\<lambda>x m. mathMax m x) (flaggedCorrelations pastResults validatorIds) (Fin 0)"
    using fold_checkPair_probability [OF pc bounds, of "([], Fin 0)"]
    by (simp add: final_def flaggedCorrelations_def)
  have nonempty: "flaggedCorrelations pastResults validatorIds \<noteq> []"
  proof -
    have "Fin 1 \<in> set (flagOf pastResults validatorIds (i, j))"
      by (simp add: flag)
    with mem have "Fin 1 \<in> set (flaggedCorrelations pastResults validatorIds)"
      unfolding flaggedCorrelations_def set_concat set_map by blast
    then show ?thesis by auto
  qed
  have all: "\<forall>x \<in> set (flaggedCorrelations pastResults validatorIds). jsGt x (Fin (9 / 10))"
    using set_flagOf by (auto simp: flaggedCorrelations_def)
  from fold_mathMax_flagged [OF nonempty all] one members show ?thesis
    by (simp add: run prob)
qed

subsection \<open>Identical votes on shared claims\<close>

lemma votesOf_concat: "votesOf k rs = concat (map (votesIn k) rs)"
  by (induction rs) (simp_all add: votesOf_def votesIn_def)

lemma votesIn_nonempty: "k \<in> set (map validator (validations r)) \<longleftrightarrow> votesIn k r \<noteq> []"
  by (auto simp: votesIn_def filter_empty_conv)

lemma length_filter_nonempty_le_concat:
  "length (filter (\<lambda>r. f r \<noteq> []) rs) \<le> length (concat (map f rs))"
proof (induction rs)
  case Nil
  show ?case by simp
next
  case (Cons r rs)
  have "f r \<noteq> [] \<Longrightarrow> 1 \<le> length (f r)" by (cases "f r") simp_all
  with Cons show ?case by auto
qed

lemma commonClaims_le_votes:
  "commonClaims a b rs \<le> length (votesOf a rs)"
proof -
  have "commonClaims a b rs \<le> length (filter (\<lambda>r. votesIn a r \<noteq> []) rs)"
    unfolding commonClaims_def votesIn_nonempty
    by (induction rs) auto
  also have "\<dots> \<le> length (votesOf a rs)"
    unfolding votesOf_concat by (rule length_filter_nonempty_le_concat)
  finally show ?thesis .
qed

lemma commonClaims_le_length: "commonClaims a b rs \<le> length rs"
  by (simp add: commonClaims_def)

text \<open>
  C5, as the code has it. Let two candidates (at the positions \<open>i < j\<close> of the candidate
  list) share at least five claims, let them have cast the same votes on every claim of
  the history (so that every claim on which one of them voted is a shared claim), and
  let these votes hold a vote for and a vote against. Then the correlation computed for
  the pair is exactly 1, both candidates are among the suspects, and the reported
  probability is the maximum of the correlations of the flagged pairs: it is one of them
  and at least each of them.
\<close>

theorem detectCollusion_identical_votes:
  assumes "i < j" and "j < length validatorIds"
      and "5 \<le> commonClaims (validatorIds ! i) (validatorIds ! j) pastResults"
      and "\<forall>r \<in> set pastResults. votesIn (validatorIds ! i) r = votesIn (validatorIds ! j) r"
      and "True \<in> set (votesOf (validatorIds ! i) pastResults)"
      and "False \<in> set (votesOf (validatorIds ! i) pastResults)"
  shows "calculateCorrelation (votesOf (validatorIds ! i) pastResults)
           (votesOf (validatorIds ! j) pastResults) = Fin 1
       \<and> validatorIds ! i \<in> set (suspects (detectCollusion pastResults validatorIds))
       \<and> validatorIds ! j \<in> set (suspects (detectCollusion pastResults validatorIds))
       \<and> probability (detectCollusion pastResults validatorIds)
           \<in> set (flaggedCorrelations pastResults validatorIds)
       \<and> (\<forall>x \<in> set (flaggedCorrelations pastResults validatorIds).
             jsGe (probability (detectCollusion pastResults validatorIds)) x)"
proof -
  let ?a = "validatorIds ! i" and ?b = "validatorIds ! j"
  have same: "votesOf ?b pastResults = votesOf ?a pastResults"
    unfolding votesOf_concat using assms(4) by (simp cong: map_cong)
  have results: "5 \<le> length pastResults"
    using assms(3) commonClaims_le_length [of ?a ?b pastResults] by linarith
  have votes: "5 \<le> length (votesOf ?a pastResults)"
    using assms(3) commonClaims_le_votes [of ?a ?b pastResults] by linarith
  from equal_patterns_flagged [OF results assms(1,2) refl same votes assms(5,6)]
  show ?thesis by (simp add: same)
qed

text \<open>
  Six shared claims on which \<open>a\<close> and \<open>b\<close> vote alike, three times for and three times
  against.
\<close>

theorem detectCollusion_identical_votes_witness:
  "commonClaims ''a'' ''b'' lockstepMixed = 6
   \<and> votesOf ''a'' lockstepMixed = [True, True, True, False, False, False]
   \<and> calculateCorrelation (votesOf ''a'' lockstepMixed) (votesOf ''b'' lockstepMixed) = Fin 1
   \<and> ''a'' \<in> set (suspects (detectCollusion lockstepMixed [''a'', ''b'']))
   \<and> ''b'' \<in> set (suspects (detectCollusion lockstepMixed [''a'', ''b'']))
   \<and> probability (detectCollusion lockstepMixed [''a'', ''b''])
       \<in> set (flaggedCorrelations lockstepMixed [''a'', ''b''])"
proof -
  have h1: "(0::nat) < 1" by simp
  have h2: "1 < length [''a'', ''b'']" by simp
  have c: "commonClaims ''a'' ''b'' lockstepMixed = 6"
    by (simp add: lockstepMixed_def commonClaims_def pastResult_def opinion_def)
  have h3: "5 \<le> commonClaims ([''a'', ''b''] ! 0) ([''a'', ''b''] ! 1) lockstepMixed"
    by (simp add: c)
  have h4: "\<forall>r \<in> set lockstepMixed. votesIn ([''a'', ''b''] ! 0) r = votesIn ([''a'', ''b''] ! 1) r"
    by (simp add: lockstepMixed_def votesIn_def pastResult_def opinion_def)
  have v: "votesOf ''a'' lockstepMixed = [True, True, True, False, False, False]"
    by (simp add: lockstepMixed_def votesOf_def pastResult_def opinion_def)
  have h5: "True \<in> set (votesOf ([''a'', ''b''] ! 0) lockstepMixed)"
    by (simp add: v)
  have h6: "False \<in> set (votesOf ([''a'', ''b''] ! 0) lockstepMixed)"
    by (simp add: v)
  note main = detectCollusion_identical_votes [OF h1 h2 h3 h4 h5 h6]
  have "calculateCorrelation (votesOf ''a'' lockstepMixed) (votesOf ''b'' lockstepMixed) = Fin 1
      \<and> ''a'' \<in> set (suspects (detectCollusion lockstepMixed [''a'', ''b'']))
      \<and> ''b'' \<in> set (suspects (detectCollusion lockstepMixed [''a'', ''b'']))
      \<and> probability (detectCollusion lockstepMixed [''a'', ''b''])
          \<in> set (flaggedCorrelations lockstepMixed [''a'', ''b''])"
    using main by simp
  with c v show ?thesis by blast
qed

lemmas collusion_evals =
  detectCollusion_def collectPatterns_def initPatterns_def recordVote_def pastResult_def
  opinion_def indexPairs_def checkPair_def patternOf_def countOf_def calculateCorrelation_def
  toNumeric_def sumReduce_def lengthNum_def correlationStep_def numAt_def jsSub_def jsGt_def
  mathMax_def Let_def upt_rec numeral_eq_Suc

text \<open>
  The claim as stated fails when the identical sequences are constant: with five shared
  claims on which \<open>a\<close> and \<open>b\<close> both vote for, the variance is 0, the guard
  \<^verbatim>\<open>denominator > 0\<close> yields the correlation 0, and nobody is suspected.
\<close>

theorem detectCollusion_identical_votes_counterexample:
  "votesOf ''a'' lockstepTrue = [True, True, True, True, True]
   \<and> votesOf ''b'' lockstepTrue = [True, True, True, True, True]
   \<and> commonClaims ''a'' ''b'' lockstepTrue = 5
   \<and> calculateCorrelation [True, True, True, True, True] [True, True, True, True, True]
       = Fin 0
   \<and> detectCollusion lockstepTrue [''a'', ''b'']
       = \<lparr>detected = False, probability = Fin 0, suspects = []\<rparr>"
  by (simp add: lockstepTrue_def votesOf_def commonClaims_def collusion_evals)

subsection \<open>Validators without enough shared claims\<close>

lemma sqrt_nine_quarters: "sqrt (9 / 4) = 3 / 2"
  by (rule real_sqrt_unique) (simp_all add: power2_eq_square)

text \<open>
  C6. A pair with fewer than five claims in common is claimed never to be suspected, the
  correlation being taken over the shared claims. The code gates a pair on the smaller
  of the two validators' own vote counts and correlates their votes by raw position.
  In \<open>disjointHistory\<close> the validators \<open>a\<close> and \<open>b\<close> share no claim at all, each casts six
  votes in its own six results, and both are reported as suspects with probability 1.
\<close>

theorem detectCollusion_no_common_claims:
  "commonClaims ''a'' ''b'' disjointHistory = 0
   \<and> detectCollusion disjointHistory [''a'', ''b'']
       = \<lparr>detected = True, probability = Fin 1, suspects = [''a'', ''b'']\<rparr>"
  by (simp add: disjointHistory_def commonClaims_def collusion_evals sqrt_nine_quarters)

subsection \<open>Patterns of different lengths\<close>

text \<open>
  C10. The two arrays handed to \<open>calculateCorrelation\<close> are claimed to have equal length.
  In \<open>unevenHistory\<close> the validator \<open>a\<close> has six votes and \<open>b\<close> has five; the pair passes
  the gate (the smaller count is 5), so the correlation is computed on arrays of lengths
  6 and 5. The loop runs over the six indices of the first array, and its last round
  reads the second array past its end: the read yields \<^verbatim>\<open>undefined\<close>, the sums become
  \<^verbatim>\<open>NaN\<close>, and the guard \<^verbatim>\<open>denominator > 0\<close> turns the result into 0.
\<close>

theorem detectCollusion_unequal_patterns:
  "patternOf (fst (collectPatterns unevenHistory [''a'', ''b''])) ''a''
       = [True, True, True, False, False, False]
   \<and> patternOf (fst (collectPatterns unevenHistory [''a'', ''b''])) ''b''
       = [True, True, True, False, False]
   \<and> \<not> min (countOf (snd (collectPatterns unevenHistory [''a'', ''b''])) ''a'')
            (countOf (snd (collectPatterns unevenHistory [''a'', ''b''])) ''b'') < 5
   \<and> numAt (toNumeric [True, True, True, False, False]) 5 = NaN
   \<and> calculateCorrelation [True, True, True, False, False, False]
        [True, True, True, False, False] = Fin 0"
  by (simp add: unevenHistory_def collusion_evals)

section \<open>Properties of the consensus commitment\<close>

subsection \<open>The sort\<close>

lemma mset_insertSorted: "mset (insertSorted cmp x ys) = add_mset x (mset ys)"
  by (induction ys) simp_all

lemma set_insertSorted: "set (insertSorted cmp x ys) = insert x (set ys)"
  by (induction ys) auto

lemma mset_stableSort: "mset (stableSort cmp xs) = mset xs"
  by (induction xs) (simp_all add: stableSort_def mset_insertSorted)

lemma sorted_insertSorted:
  assumes "consistentComparator cmp" and "sorted_wrt (\<lambda>a b. cmp a b \<le> 0) ys"
  shows "sorted_wrt (\<lambda>a b. cmp a b \<le> 0) (insertSorted cmp x ys)"
  using assms(2)
proof (induction ys)
  case Nil
  show ?case by simp
next
  case (Cons y ys)
  have skew: "(cmp a b < 0) = (0 < cmp b a)" for a b
    using assms(1) by (simp add: consistentComparator_def)
  have trans: "cmp a b \<le> 0 \<Longrightarrow> cmp b c \<le> 0 \<Longrightarrow> cmp a c \<le> 0" for a b c
    using assms(1) unfolding consistentComparator_def by blast
  show ?case
  proof (cases "cmp x y \<le> 0")
    case True
    then have "\<forall>z \<in> set ys. cmp x z \<le> 0" using Cons.prems trans by auto
    with True Cons.prems show ?thesis by simp
  next
    case False
    then have "cmp y x \<le> 0" using skew [of y x] by simp
    with False Cons show ?thesis by (auto simp: set_insertSorted)
  qed
qed

lemma sorted_stableSort:
  assumes "consistentComparator cmp"
  shows "sorted_wrt (\<lambda>a b. cmp a b \<le> 0) (stableSort cmp xs)"
proof (induction xs)
  case Nil
  show ?case by (simp add: stableSort_def)
next
  case (Cons x xs)
  have "stableSort cmp (x # xs) = insertSorted cmp x (stableSort cmp xs)"
    by (simp add: stableSort_def)
  with sorted_insertSorted [OF assms Cons.IH] show ?case by simp
qed

text \<open>Two sorted lists with the same elements are equal when no two elements tie.\<close>

lemma sorted_wrt_mset_unique:
  assumes "sorted_wrt le xs" and "sorted_wrt le ys" and "mset xs = mset ys"
      and "\<forall>a \<in> set xs. \<forall>b \<in> set xs. le a b \<and> le b a \<longrightarrow> a = b"
  shows "xs = ys"
  using assms
proof (induction xs arbitrary: ys)
  case Nil
  then show ?case by simp
next
  case (Cons x xs)
  from Cons.prems(3) obtain y ys' where ys: "ys = y # ys'" by (cases ys) auto
  have sets: "set (x # xs) = set (y # ys')"
    using Cons.prems(3) ys by (metis mset_eq_setD)
  have "x = y"
  proof (rule ccontr)
    assume neq: "x \<noteq> y"
    then have "x \<in> set ys'" and "y \<in> set xs" using sets by auto
    then have "le y x" and "le x y" using Cons.prems(1,2) ys by auto
    moreover have "x \<in> set (x # xs)" "y \<in> set (x # xs)" using \<open>y \<in> set xs\<close> by simp_all
    ultimately show False using Cons.prems(4) neq by blast
  qed
  moreover have "xs = ys'"
  proof (rule Cons.IH)
    show "sorted_wrt le xs" using Cons.prems(1) by simp
    show "sorted_wrt le ys'" using Cons.prems(2) ys by simp
    show "mset xs = mset ys'" using Cons.prems(3) ys \<open>x = y\<close> by simp
    show "\<forall>a \<in> set xs. \<forall>b \<in> set xs. le a b \<and> le b a \<longrightarrow> a = b"
      using Cons.prems(4) by simp
  qed
  ultimately show ?case using ys by simp
qed

lemma consistentComparator_validator:
  assumes "consistentComparator cmp"
  shows "consistentComparator (\<lambda>a b. cmp (validator a) (validator b))"
  using assms unfolding consistentComparator_def by blast

lemma stableSort_permutation:
  fixes vs vs' :: "Validation list"
  assumes "consistentComparator cmp"
      and "\<forall>v \<in> set vs. \<forall>w \<in> set vs. cmp (validator v) (validator w) = 0 \<longrightarrow> v = w"
      and "mset vs' = mset vs"
  shows "stableSort (\<lambda>a b. cmp (validator a) (validator b)) vs'
           = stableSort (\<lambda>a b. cmp (validator a) (validator b)) vs"
proof -
  let ?c = "\<lambda>(a::Validation) (b::Validation). cmp (validator a) (validator b)"
  note cc = consistentComparator_validator [OF assms(1)]
  have skew: "(?c a b < 0) = (0 < ?c b a)" for a b :: Validation
    using assms(1) by (simp add: consistentComparator_def)
  have anti: "\<forall>a \<in> set (stableSort ?c vs'). \<forall>b \<in> set (stableSort ?c vs').
                 ?c a b \<le> 0 \<and> ?c b a \<le> 0 \<longrightarrow> a = b"
  proof (intro ballI impI)
    fix a b
    assume a: "a \<in> set (stableSort ?c vs')" and b: "b \<in> set (stableSort ?c vs')"
       and le: "?c a b \<le> 0 \<and> ?c b a \<le> 0"
    have "set (stableSort ?c vs') = set vs"
      using mset_stableSort [of ?c vs'] assms(3) by (metis mset_eq_setD)
    then have "a \<in> set vs" "b \<in> set vs" using a b by simp_all
    moreover have "?c a b = 0" using le skew [of a b] by linarith
    ultimately show "a = b" using assms(2) by blast
  qed
  show ?thesis
    by (rule sorted_wrt_mset_unique [OF sorted_stableSort [OF cc] sorted_stableSort [OF cc] _ anti])
       (simp add: mset_stableSort assms(3))
qed

lemma consistent_codeUnitCompare: "consistentComparator codeUnitCompare"
  by (auto simp: consistentComparator_def codeUnitCompare_def)

subsection \<open>Order of the validations\<close>

text \<open>
  C9, as the code has it. The commitment is a function of the result alone (no clock, no
  randomness): two results with the same data id, consensus ratio and timestamp whose
  validation lists are permutations of each other yield the same bytes, provided the
  comparator is consistent and no two different validations of the list have validator
  ids that compare as equal. The digest covers the validations sorted by validator id,
  their number, the data id, the consensus ratio and the timestamp.
\<close>

theorem generateConsensusProof_permutation:
  assumes "consistentComparator (localeCompare pf)"
      and "\<forall>v \<in> set (validations r). \<forall>w \<in> set (validations r).
             localeCompare pf (validator v) (validator w) = 0 \<longrightarrow> v = w"
      and "mset (validations r') = mset (validations r)"
      and "dataId r' = dataId r" and "consensusRatio r' = consensusRatio r"
      and "resultTimestamp r' = resultTimestamp r"
  shows "generateConsensusProof pf r' = generateConsensusProof pf r"
proof -
  have "hashValidations pf (validations r') = hashValidations pf (validations r)"
    by (simp add: hashValidations_def stableSort_permutation [OF assms(1-3)])
  moreover have "lengthNum (validations r') = lengthNum (validations r)"
    using mset_eq_length [OF assms(3)] by (simp add: lengthNum_def)
  ultimately show ?thesis
    by (simp add: generateConsensusProof_def assms(4-6))
qed

text \<open>The opinions of \<open>b\<close> and \<open>a\<close>, in both orders.\<close>

theorem generateConsensusProof_permutation_witness:
  "generateConsensusProof samplePlatform
      (pastResult [opinion ''a'' False 100, opinion ''b'' True 900])
     = generateConsensusProof samplePlatform
      (pastResult [opinion ''b'' True 900, opinion ''a'' False 100])"
proof -
  let ?r = "pastResult [opinion ''b'' True 900, opinion ''a'' False 100]"
  let ?r' = "pastResult [opinion ''a'' False 100, opinion ''b'' True 900]"
  have h1: "consistentComparator (localeCompare samplePlatform)"
    by (simp add: samplePlatform_def consistent_codeUnitCompare)
  have h2: "\<forall>v \<in> set (validations ?r). \<forall>w \<in> set (validations ?r).
         localeCompare samplePlatform (validator v) (validator w) = 0 \<longrightarrow> v = w"
    by (simp add: samplePlatform_def pastResult_def opinion_def codeUnitCompare_def)
  have h3: "mset (validations ?r') = mset (validations ?r)"
    by (simp add: pastResult_def)
  have h4: "dataId ?r' = dataId ?r" "consensusRatio ?r' = consensusRatio ?r"
    "resultTimestamp ?r' = resultTimestamp ?r"
    by (simp_all add: pastResult_def)
  show ?thesis by (rule generateConsensusProof_permutation [OF h1 h2 h3 h4])
qed

subsection \<open>Two validations of one validator\<close>

lemma hash_true_first:
  "nat \<bar>sint (fold hashStep ''a:true:1|a:false:1'' 0)\<bar> = 1469292931"
  by (simp add: hashStep_def)

lemma hash_false_first:
  "nat \<bar>sint (fold hashStep ''a:false:1|a:true:1'' 0)\<bar> = 1720220007"
  by (simp add: hashStep_def)

lemma hex_true_first: "padStart 8 (CHR ''0'') (toRadix 16 1469292931) = ''5793a183''"
  by (simp add: toRadix.simps digitChar_def padStart_def)

lemma hex_false_first: "padStart 8 (CHR ''0'') (toRadix 16 1720220007) = ''66887967''"
  by (simp add: toRadix.simps digitChar_def padStart_def)

lemma hashValidations_true_first:
  "hashValidations samplePlatform [opinion ''a'' True 1, opinion ''a'' False 1] = ''5793a183''"
proof -
  have sorted: "stableSort (\<lambda>a b. codeUnitCompare (validator a) (validator b))
       [opinion ''a'' True 1, opinion ''a'' False 1]
     = [opinion ''a'' True 1, opinion ''a'' False 1]"
    by (simp add: stableSort_def codeUnitCompare_def opinion_def)
  have str: "joinWith ''|''
      (map (\<lambda>v. validator v @ '':'' @ boolToString (result v) @ '':''
                 @ decimalString (trustScore v))
         [opinion ''a'' True 1, opinion ''a'' False 1])
     = ''a:true:1|a:false:1''"
    by (simp add: joinWith_def opinion_def boolToString_def decimalString_def toRadix.simps
        digitChar_def)
  show ?thesis
    unfolding hashValidations_def Let_def samplePlatform_def
    by (simp only: platform.simps sorted str hash_true_first hex_true_first)
qed

lemma hashValidations_false_first:
  "hashValidations samplePlatform [opinion ''a'' False 1, opinion ''a'' True 1] = ''66887967''"
proof -
  have sorted: "stableSort (\<lambda>a b. codeUnitCompare (validator a) (validator b))
       [opinion ''a'' False 1, opinion ''a'' True 1]
     = [opinion ''a'' False 1, opinion ''a'' True 1]"
    by (simp add: stableSort_def codeUnitCompare_def opinion_def)
  have str: "joinWith ''|''
      (map (\<lambda>v. validator v @ '':'' @ boolToString (result v) @ '':''
                 @ decimalString (trustScore v))
         [opinion ''a'' False 1, opinion ''a'' True 1])
     = ''a:false:1|a:true:1''"
    by (simp add: joinWith_def opinion_def boolToString_def decimalString_def toRadix.simps
        digitChar_def)
  show ?thesis
    unfolding hashValidations_def Let_def samplePlatform_def
    by (simp only: platform.simps sorted str hash_false_first hex_false_first)
qed

lemma generateConsensusProof_sample:
  assumes "hashValidations samplePlatform [v, w] = h"
  shows \<open>generateConsensusProof samplePlatform (pastResult [v, w])
     = ''{"dataId":"claim","consensusRatio":0,"validationCount":2,"timestamp":0,"validationsHash":"''
       @ h @ ''"}''\<close>
proof -
  have nums: "decimalString (Fin 0) = ''0''" "decimalString (Fin 2) = ''2''"
    by (simp_all add: decimalString_def toRadix.simps digitChar_def)
  have sel: "dataId (pastResult vs) = ''claim''" "consensusRatio (pastResult vs) = Fin 0"
    "resultTimestamp (pastResult vs) = Fin 0" "validations (pastResult vs) = vs" for vs
    by (simp_all add: pastResult_def)
  have parts: "jsonQuote samplePlatform s = plainQuote s"
     "jsonNumber samplePlatform (Fin 0) = ''0''"
     "jsonNumber samplePlatform (lengthNum [v, w]) = ''2''" for s
    by (simp_all add: samplePlatform_def jsonNumber_def lengthNum_def nums)
  show ?thesis
    unfolding generateConsensusProof_def sel assms
    by (simp add: stringifyProofData_def parts plainQuote_def)
qed

text \<open>
  The claim as stated fails when two validations carry the same validator id: the sort
  is stable and leaves them in their input order, so swapping them changes the hashed
  text (\<^verbatim>\<open>a:true:1|a:false:1\<close> against \<^verbatim>\<open>a:false:1|a:true:1\<close>) and the digest.
\<close>

theorem generateConsensusProof_permutation_counterexample:
  \<open>generateConsensusProof samplePlatform
      (pastResult [opinion ''a'' True 1, opinion ''a'' False 1])
     = ''{"dataId":"claim","consensusRatio":0,"validationCount":2,"timestamp":0,"validationsHash":"5793a183"}''
   \<and> generateConsensusProof samplePlatform
      (pastResult [opinion ''a'' False 1, opinion ''a'' True 1])
     = ''{"dataId":"claim","consensusRatio":0,"validationCount":2,"timestamp":0,"validationsHash":"66887967"}''\<close>
  using generateConsensusProof_sample [OF hashValidations_true_first]
        generateConsensusProof_sample [OF hashValidations_false_first]
  by simp

section \<open>Properties of the reputation engine\<close>

subsection \<open>Clamping\<close>

lemma clamp_Fin:
  "mathMin (Fin 1000) (mathMax (Fin 0) (Fin r)) = Fin (min 1000 (max 0 r))"
  by (simp add: mathMin_def mathMax_def min_def max_def)

lemma clamp_range:
  "mathMin (Fin 1000) (mathMax (Fin 0) x) = NaN
   \<or> (\<exists>r. mathMin (Fin 1000) (mathMax (Fin 0) x) = Fin r \<and> 0 \<le> r \<and> r \<le> 1000)"
  by (cases x) (simp_all add: mathMin_def mathMax_def)

lemma calculateTrustScore_range_or_NaN:
  "calculateTrustScore now params weights = NaN
   \<or> (\<exists>r. calculateTrustScore now params weights = Fin r \<and> 0 \<le> r \<and> r \<le> 1000)"
  unfolding calculateTrustScore_def Let_def by (rule clamp_range)

subsection \<open>Weights that sum to zero\<close>

text \<open>
  C1. The score is claimed to lie in \<open>[0, 1000]\<close> for every weight triple, an all-zero
  triple falling back to the default weights. The code has no such fallback:
  \<open>normalizeWeights\<close> divides by the total \<open>0\<close>, every normalised weight is \<^verbatim>\<open>NaN\<close>, and
  the clamp \<^verbatim>\<open>Math.min(1000, Math.max(0, ...))\<close> passes \<^verbatim>\<open>NaN\<close> on. With the default
  parameters and the weights \<open>(0, 0, 0)\<close> the result is \<^verbatim>\<open>NaN\<close>, which is no score.
\<close>

theorem calculateTrustScore_zero_weights_NaN:
  "calculateTrustScore now noParams zeroWeights = NaN"
  by (simp add: calculateTrustScore_def noParams_def zeroWeights_def orDefault_def
      normalizeWeights_def calculateDecayedAccuracy_def mathMin_def mathMax_def)

subsection \<open>Short histories\<close>

text \<open>
  C7. With fewer than three history points no regression is run: the prediction is the
  score of the last entry, or 500 for the empty history, whatever the horizon and the
  clock are.
\<close>

theorem predictTrustScoreTrend_short_history:
  assumes "length history < 3"
  shows "predictTrustScoreTrend now history daysToPredict
           = (if history = [] then Fin 500 else score (last history))"
  using assms by (simp add: predictTrustScoreTrend_def last_conv_nth)

text \<open>Exactly two points: the most recent score, 640, comes back unchanged.\<close>

theorem predictTrustScoreTrend_short_history_witness:
  "length [\<lparr>historyTimestamp = Fin 1000, score = Fin 410\<rparr>,
           \<lparr>historyTimestamp = Fin 2000, score = Fin 640\<rparr>] < 3
   \<and> predictTrustScoreTrend (Fin 5000)
        [\<lparr>historyTimestamp = Fin 1000, score = Fin 410\<rparr>,
         \<lparr>historyTimestamp = Fin 2000, score = Fin 640\<rparr>] (Some (Fin 30))
     = Fin 640"
proof -
  have short: "length [\<lparr>historyTimestamp = Fin 1000, score = Fin 410\<rparr>,
           \<lparr>historyTimestamp = Fin 2000, score = Fin 640\<rparr>] < 3"
    by simp
  have "predictTrustScoreTrend (Fin 5000)
        [\<lparr>historyTimestamp = Fin 1000, score = Fin 410\<rparr>,
         \<lparr>historyTimestamp = Fin 2000, score = Fin 640\<rparr>] (Some (Fin 30))
     = Fin 640"
    using predictTrustScoreTrend_short_history [OF short, of "Fin 5000" "Some (Fin 30)"]
    by simp
  with short show ?thesis by (rule conjI)
qed

subsection \<open>Blending a score with itself\<close>

lemma normalizedWeight_unit:
  assumes "w \<noteq> NaN"
  shows "\<exists>t. 0 \<le> t \<and> t \<le> 1 \<and> mathMax (Fin 0) (mathMin (Fin 1) w) = Fin t"
  using assms by (cases w) (auto simp: mathMin_def mathMax_def)

text \<open>
  C8. Blending a trust score with itself is a no-op: for every integer score \<open>k\<close> of the
  range from 0 to 1000, for the default weight and for every weight other than \<^verbatim>\<open>NaN\<close>
  (which the clamp to \<open>[0, 1]\<close> does not remove), the update of \<open>k\<close> by the evidence \<open>k\<close>
  returns \<open>k\<close>.
\<close>

theorem updateTrustScore_same_evidence:
  assumes "0 \<le> k" and "k \<le> 1000" and "evidenceWeight \<noteq> Some NaN"
  shows "updateTrustScore (Fin (of_int k)) (Fin (of_int k)) evidenceWeight = Fin (of_int k)"
proof -
  define w where "w = (case evidenceWeight of None \<Rightarrow> Fin (1 / 10) | Some e \<Rightarrow> e)"
  have "w \<noteq> NaN" using assms(3) by (auto simp: w_def split: option.splits)
  then obtain t where t: "mathMax (Fin 0) (mathMin (Fin 1) w) = Fin t"
    using normalizedWeight_unit by blast
  have blend: "of_int k * (1 - t) + of_int k * t = (of_int k :: real)"
    by (simp add: algebra_simps)
  have round: "\<lfloor>(of_int k :: real) + 1 / 2\<rfloor> = k"
    by linarith
  have clamp: "min 1000 (max 0 (of_int k :: real)) = of_int k"
    using assms(1,2) by simp
  show ?thesis
    unfolding updateTrustScore_def Let_def w_def [symmetric] t
    by (simp add: jsSub_def blend round clamp_Fin clamp)
qed

theorem updateTrustScore_same_evidence_witness:
  "(0::int) \<le> 730 \<and> (730::int) \<le> 1000 \<and> Some (Fin (1 / 4)) \<noteq> Some NaN
   \<and> updateTrustScore (Fin 730) (Fin 730) (Some (Fin (1 / 4))) = Fin 730"
  using updateTrustScore_same_evidence [of 730 "Some (Fin (1 / 4))"] by simp

end
